theory Spec2Isabelle
  imports Complex_Main "HOL-Library.Log_Nat"
begin

section \<open>JavaScript strings\<close>

text \<open>
  A JavaScript string is a sequence of UTF-16 code units: \<open>slice\<close> counts code units and
  the regular expression \<open>/\s+/g\<close> (no \<open>u\<close> flag) matches code units. A code unit is
  modelled by its number, a natural number below 65536; no definition below depends on
  that bound. The literals of \<open>index.mjs\<close> are ASCII except for the em dash U+2014 in
  \<open>buildDescription\<close>.
\<close>

type_synonym jsstring = "nat list"

definition js :: "string \<Rightarrow> jsstring" where
  "js s = map of_char s"

text \<open>
  The class \<open>\s\<close> and the characters \<open>String.prototype.trim\<close> strips are the same set:
  WhiteSpace (TAB, VT, FF, SP, NBSP, ZWNBSP and the Unicode category Zs) and
  LineTerminator (LF, CR, LS, PS).
\<close>

definition isspace :: "nat \<Rightarrow> bool" where
  "isspace c \<longleftrightarrow>
     c \<in> {0x9, 0xA, 0xB, 0xC, 0xD, 0x20, 0xA0, 0x1680, 0x2028, 0x2029, 0x202F, 0x205F,
          0x3000, 0xFEFF}
     \<or> (0x2000 \<le> c \<and> c \<le> 0x200A)"

definition trim :: "jsstring \<Rightarrow> jsstring" where
  "trim s = rev (dropWhile isspace (rev (dropWhile isspace s)))"

text \<open>\<open>s.slice(0, n)\<close>: the first \<open>n\<close> code units, or all of \<open>s\<close> when it is shorter.\<close>

definition slice0 :: "nat \<Rightarrow> jsstring \<Rightarrow> jsstring" where
  "slice0 n s = take n s"

text \<open>\<open>s.replace(/\s+/g, " ")\<close>: every maximal run of whitespace becomes one space.\<close>

function replace_ws :: "jsstring \<Rightarrow> jsstring" where
  "replace_ws [] = []"
| "replace_ws (c # cs) =
     (if isspace c then 0x20 # replace_ws (dropWhile isspace cs) else c # replace_ws cs)"
  by pat_completeness auto
termination
  by (relation "measure length") (auto simp: length_dropWhile_le less_Suc_eq_le)

text \<open>\<open>x || d\<close> on an optional string: \<open>null\<close>, \<open>undefined\<close> and \<open>""\<close> are falsy.\<close>

definition or_default :: "jsstring option \<Rightarrow> jsstring \<Rightarrow> jsstring" where
  "or_default x d = (case x of None \<Rightarrow> d | Some s \<Rightarrow> if s = [] then d else s)"

section \<open>Data model\<close>

text \<open>
  The JSON value of \<open>inventory_management\<close>: the store sends \<open>null\<close> or a string naming the
  tracking service; the code only tests it for truthiness.
\<close>

datatype jsvalue = JNull | JBool bool | JStr jsstring

fun truthy :: "jsvalue \<Rightarrow> bool" where
  "truthy JNull = False"
| "truthy (JBool b) = b"
| "truthy (JStr s) = (s \<noteq> [])"

record variant =
  vid :: nat
  price :: jsstring
  inventory_quantity :: "int option"
  inventory_management :: jsvalue

record product =
  pid :: nat
  title :: jsstring
  vendor :: "jsstring option"
  body_html :: "jsstring option"
  variants :: "variant list option"
  status :: jsstring

text \<open>
  Identifiers. In the JSON a store sends, the identifier of a product or of a variant is
  an integer. \<open>res.json()\<close> reads every number as a double, and the template literals and
  \<open>JSON.stringify\<close> of \<open>index.mjs\<close> print that double back into paths and bodies. Up to
  \<open>2\<^sup>5\<^sup>3 = 9007199254740992\<close> the double is the integer itself and is printed in full,
  so in that range the program sends back exactly the identifier it received; beyond it
  the program need not: it holds \<open>9007199254740992\<close> for the identifier
  \<open>9007199254740993\<close> (\<open>beyond_safe_integers\<close> below). Identifiers are modelled as natural
  numbers that pass through the program unchanged. \<open>safe_ids\<close> states the range in which
  this is what the code does; it is a hypothesis of the theorems on pagination, on dry-run
  against apply mode, on repeated runs and on the store after a failing write.

  \<open>inventory_quantity\<close> is a JSON integer too. The code only compares it with 0, and
  reading an integer as a double keeps its sign, so the quantity is modelled by the integer.
\<close>

section \<open>The remote catalog client\<close>

datatype verb = GET | PUT

datatype path =
    ProductsPage nat nat "jsstring option"
  | ProductPath nat
  | VariantPath nat

text \<open>
  \<open>ProductsPage limit since fields\<close> is \<open>/products.json?limit=..&since_id=..[&fields=..]\<close>,
  \<open>ProductPath i\<close> is \<open>/products/i.json\<close> and \<open>VariantPath i\<close> is \<open>/variants/i.json\<close>.
  The bodies the code sends are the three patches below.
\<close>

datatype patch =
    BodyHtmlPatch nat jsstring
  | StatusPatch nat jsstring
  | PricePatch nat jsstring

record init =
  http_method :: "verb option"
  http_body :: "patch option"

definition no_init :: init where
  "no_init = \<lparr>http_method = None, http_body = None\<rparr>"

definition put_init :: "patch \<Rightarrow> init" where
  "put_init b = \<lparr>http_method = Some PUT, http_body = Some b\<rparr>"

datatype json = Json (products: "product list option")

text \<open>
  What \<open>fetch\<close> does: it rejects (transport failure), or it resolves to a response with a
  status, a raw body text and, when the text is JSON, the parsed value.
\<close>

datatype reply =
    Rejected jsstring
  | Response nat jsstring "json option"

datatype error =
    FetchError jsstring
  | ShopifyError nat verb path jsstring
  | JsonError

datatype call = Call path init reply

type_synonym 'w remote = "path \<Rightarrow> init \<Rightarrow> 'w \<Rightarrow> reply \<times> 'w"

text \<open>
  The state a run threads: the remote world, the log of the calls issued so far (with the
  reply each got) and the identifiers of the products the loop body has been entered for.
\<close>

record 'w net =
  world :: 'w
  calls :: "call list"
  visited :: "nat list"

definition res_ok :: "nat \<Rightarrow> bool" where
  "res_ok st \<longleftrightarrow> 200 \<le> st \<and> st \<le> 299"

definition shopify :: "'w remote \<Rightarrow> path \<Rightarrow> init \<Rightarrow> 'w net \<Rightarrow> (error + json) \<times> 'w net" where
  "shopify remote pa ini s =
     (case remote pa ini (world s) of (rep, w') \<Rightarrow>
        let s' = s\<lparr>world := w', calls := calls s @ [Call pa ini rep]\<rparr> in
        (case rep of
           Rejected m \<Rightarrow> (Inl (FetchError m), s')
         | Response st txt parsed \<Rightarrow>
             if \<not> res_ok st
             then (Inl (ShopifyError st (case http_method ini of None \<Rightarrow> GET | Some m \<Rightarrow> m) pa txt), s')
             else (case parsed of None \<Rightarrow> (Inl JsonError, s') | Some d \<Rightarrow> (Inr d, s'))))"

section \<open>buildDescription\<close>

definition nl :: jsstring where
  "nl = [0xA]"

definition buildDescription :: "product \<Rightarrow> jsstring" where
  "buildDescription p = trim (
     nl @ js ''<p><strong>'' @ title p @ js ''</strong> '' @ [0x2014]
        @ js '' designed for happy, healthy pets.</p>'' @
     nl @ js ''<h3>Key Benefits</h3>'' @
     nl @ js ''<ul>'' @
     nl @ js ''<li>Supports healthy posture</li>'' @
     nl @ js ''<li>Reduces mess & choking</li>'' @
     nl @ js ''<li>Durable for daily use</li>'' @
     nl @ js ''<li>Easy to clean</li>'' @
     nl @ js ''</ul>'' @
     nl @ js ''<h3>Product Details</h3>'' @
     nl @ js ''<ul>'' @
     nl @ js ''<li>Brand: '' @ or_default (vendor p) (js ''FuzzleToys'') @ js ''</li>'' @
     nl @ js ''<li>Material: Pet-safe materials</li>'' @
     nl @ js ''</ul>'' @
     nl @ js ''<h3>Shipping & Returns</h3>'' @
     nl @ js ''<p>Fast US shipping. 30-day hassle-free returns.</p>'' @
     nl)"

section \<open>The traversal shared by the three operations\<close>

text \<open>
  \<open>updateAllDescriptions\<close>, \<open>hideOutOfStock\<close> and \<open>simpleReprice\<close> are written as the
  same loop: fetch the page after \<open>sinceId\<close>, stop on an empty page, otherwise run the
  body on each product of the page in order, setting \<open>sinceId = p.id\<close> first. A failing
  call throws out of the loop. The loop is embedded once, with the page path and the body
  as parameters; \<open>for_products\<close> is the inner \<open>for (const p of products)\<close>.
\<close>

fun for_products ::
  "('a \<Rightarrow> product \<Rightarrow> 'w net \<Rightarrow> (error + 'a) \<times> 'w net) \<Rightarrow> product list \<Rightarrow> nat \<times> 'a \<Rightarrow> 'w net
     \<Rightarrow> (error + nat \<times> 'a) \<times> 'w net" where
  "for_products body [] (sinceId, acc) s = (Inr (sinceId, acc), s)"
| "for_products body (p # ps) (sinceId, acc) s =
     (case body acc p (s\<lparr>visited := visited s @ [pid p]\<rparr>) of
        (Inl e, s') \<Rightarrow> (Inl e, s')
      | (Inr acc', s') \<Rightarrow> for_products body ps (pid p, acc') s')"

partial_function (option) paginate ::
  "'w remote \<Rightarrow> (nat \<Rightarrow> path) \<Rightarrow> ('a \<Rightarrow> product \<Rightarrow> 'w net \<Rightarrow> (error + 'a) \<times> 'w net)
     \<Rightarrow> nat \<Rightarrow> 'a \<Rightarrow> 'w net \<Rightarrow> ((error + 'a) \<times> 'w net) option" where
  "paginate remote page_path body sinceId acc s =
     (case shopify remote (page_path sinceId) no_init s of
        (Inl e, s1) \<Rightarrow> Some (Inl e, s1)
      | (Inr data, s1) \<Rightarrow>
          (case (case products data of None \<Rightarrow> [] | Some ps \<Rightarrow> ps) of
             [] \<Rightarrow> Some (Inr acc, s1)
           | p # ps \<Rightarrow>
               (case for_products body (p # ps) (sinceId, acc) s1 of
                  (Inl e, s2) \<Rightarrow> Some (Inl e, s2)
                | (Inr (sinceId', acc'), s2) \<Rightarrow>
                    paginate remote page_path body sinceId' acc' s2)))"

datatype run_result =
    Updated nat
  | Preview nat "(nat \<times> jsstring) list"
  | Hidden nat
  | Changed nat

section \<open>updateAllDescriptions\<close>

text \<open>The comparison of line 55: \<open>True\<close> means \<open>continue\<close>.\<close>

definition same_description :: "product \<Rightarrow> bool" where
  "same_description p =
     (let nextHtml = buildDescription p;
          curHtml = trim (or_default (body_html p) [])
      in replace_ws (slice0 160 curHtml) = replace_ws (slice0 160 nextHtml))"

definition update_product ::
  "'w remote \<Rightarrow> bool \<Rightarrow> nat \<times> (nat \<times> jsstring) list \<Rightarrow> product \<Rightarrow> 'w net
     \<Rightarrow> (error + nat \<times> (nat \<times> jsstring) list) \<times> 'w net" where
  "update_product remote apply acc p s =
     (case acc of (updated, preview) \<Rightarrow>
        if same_description p then (Inr (updated, preview), s)
        else if apply then
          (case shopify remote (ProductPath (pid p))
                  (put_init (BodyHtmlPatch (pid p) (buildDescription p))) s of
             (Inl e, s') \<Rightarrow> (Inl e, s')
           | (Inr _, s') \<Rightarrow> (Inr (updated + 1, preview), s'))
        else (Inr (updated, preview @ [(pid p, title p)]), s))"

definition updateAllDescriptions ::
  "'w remote \<Rightarrow> bool \<Rightarrow> 'w net \<Rightarrow> ((error + run_result) \<times> 'w net) option" where
  "updateAllDescriptions remote apply s =
     (case paginate remote (\<lambda>sinceId. ProductsPage 250 sinceId None)
             (update_product remote apply) 0 (0, []) s of
        None \<Rightarrow> None
      | Some (Inl e, s') \<Rightarrow> Some (Inl e, s')
      | Some (Inr (updated, preview), s') \<Rightarrow>
          Some (Inr (if apply then Updated updated else Preview (length preview) preview), s'))"

section \<open>hideOutOfStock\<close>

text \<open>The predicate of line 78, on one variant.\<close>

definition zero_and_tracked :: "variant \<Rightarrow> bool" where
  "zero_and_tracked v \<longleftrightarrow>
     (case inventory_quantity v of None \<Rightarrow> 0 | Some q \<Rightarrow> q) \<le> 0 \<and> truthy (inventory_management v)"

definition allZero :: "product \<Rightarrow> bool" where
  "allZero p = list_all zero_and_tracked (case variants p of None \<Rightarrow> [] | Some vs \<Rightarrow> vs)"

definition hide_product :: "'w remote \<Rightarrow> nat \<Rightarrow> product \<Rightarrow> 'w net \<Rightarrow> (error + nat) \<times> 'w net" where
  "hide_product remote hidden p s =
     (if allZero p \<and> status p \<noteq> js ''draft'' then
        (case shopify remote (ProductPath (pid p)) (put_init (StatusPatch (pid p) (js ''draft''))) s of
           (Inl e, s') \<Rightarrow> (Inl e, s')
         | (Inr _, s') \<Rightarrow> (Inr (hidden + 1), s'))
      else (Inr hidden, s))"

definition hideOutOfStock :: "'w remote \<Rightarrow> 'w net \<Rightarrow> ((error + run_result) \<times> 'w net) option" where
  "hideOutOfStock remote s =
     (case paginate remote
             (\<lambda>sinceId. ProductsPage 250 sinceId (Some (js ''id,title,variants,status'')))
             (hide_product remote) 0 0 s of
        None \<Rightarrow> None
      | Some (Inl e, s') \<Rightarrow> Some (Inl e, s')
      | Some (Inr hidden, s') \<Rightarrow> Some (Inr (Hidden hidden), s'))"

section \<open>JavaScript numbers\<close>

text \<open>
  A Number is an IEEE 754 binary64 value. A finite one is modelled by the rational it
  denotes, an infinity or NaN by a constructor. The two zeros are one value here: the
  operations \<open>simpleReprice\<close> applies (\<open>isFinite\<close>, \<open>*\<close> and \<open>toFixed\<close>, which prints both
  zeros as \<open>0.00\<close>) do not tell them apart. \<open>round_double\<close> is rounding to nearest, ties
  to even, with gradual underflow and overflow to infinity; every arithmetic operation is
  the exact operation followed by \<open>round_double\<close>, and so is the conversion of a decimal
  literal (engines round the exact decimal value; ECMA-262 lets them cut it at 20
  significant digits first).
\<close>

datatype number = Finite rat | PosInfinity | NegInfinity | NaN

text \<open>\<open>ilog2 v\<close> is \<open>\<lfloor>log\<^sub>2 v\<rfloor>\<close> for \<open>0 < v\<close>.\<close>

definition ilog2 :: "rat \<Rightarrow> int" where
  "ilog2 v = (if 1 \<le> v then bitlen \<lfloor>v\<rfloor> - 1 else - bitlen (\<lceil>1 / v\<rceil> - 1))"

definition round_half_even :: "rat \<Rightarrow> int" where
  "round_half_even v =
     (let f = \<lfloor>v\<rfloor>; r = v - of_int f
      in if r < 1 / 2 then f else if 1 / 2 < r then f + 1 else if even f then f else f + 1)"

definition round_double :: "rat \<Rightarrow> number" where
  "round_double q =
     (if q = 0 then Finite 0
      else let a = \<bar>q\<bar>;
               u = 2 powi (max (ilog2 a) (- 1022) - 52);
               r = of_int (round_half_even (a / u)) * u
           in if 2 ^ 1024 \<le> r then (if q < 0 then NegInfinity else PosInfinity)
              else Finite (if q < 0 then - r else r))"

definition isFinite :: "number \<Rightarrow> bool" where
  "isFinite x = (case x of Finite q \<Rightarrow> True | _ \<Rightarrow> False)"

text \<open>\<open>x / 100\<close>, \<open>1 + x\<close> and \<open>x * y\<close>.\<close>

definition div100 :: "number \<Rightarrow> number" where
  "div100 x = (case x of Finite q \<Rightarrow> round_double (q / 100) | _ \<Rightarrow> x)"

definition one_plus :: "number \<Rightarrow> number" where
  "one_plus x = (case x of Finite q \<Rightarrow> round_double (1 + q) | _ \<Rightarrow> x)"

fun times_inf :: "rat \<Rightarrow> bool \<Rightarrow> number" where
  "times_inf a positive =
     (if a = 0 then NaN else if (0 < a) = positive then PosInfinity else NegInfinity)"

fun num_times :: "number \<Rightarrow> number \<Rightarrow> number" where
  "num_times NaN y = NaN"
| "num_times x NaN = NaN"
| "num_times (Finite a) (Finite b) = round_double (a * b)"
| "num_times (Finite a) PosInfinity = times_inf a True"
| "num_times (Finite a) NegInfinity = times_inf a False"
| "num_times PosInfinity (Finite b) = times_inf b True"
| "num_times NegInfinity (Finite b) = times_inf b False"
| "num_times PosInfinity PosInfinity = PosInfinity"
| "num_times PosInfinity NegInfinity = NegInfinity"
| "num_times NegInfinity PosInfinity = NegInfinity"
| "num_times NegInfinity NegInfinity = PosInfinity"

subsection \<open>Number.prototype.toFixed\<close>

function digits_of :: "nat \<Rightarrow> jsstring" where
  "digits_of n = (if n < 10 then [48 + n] else digits_of (n div 10) @ [48 + n mod 10])"
  by pat_completeness auto
termination
  by (relation "measure id") auto

text \<open>
  \<open>Number::toString\<close> for a finite \<open>x \<ge> 10\<^sup>2\<^sup>1\<close>: the shortest digit string \<open>s\<close> (of \<open>k\<close>
  digits) such that \<open>s \<times> 10\<^sup>n\<^sup>-\<^sup>k\<close> rounds to \<open>x\<close>, the closest to \<open>x\<close> when two qualify,
  printed in exponent notation. \<open>x\<close> has \<open>n\<close> integer digits.
\<close>

definition candidates :: "rat \<Rightarrow> nat \<Rightarrow> nat \<Rightarrow> int list" where
  "candidates x n k =
     (let sc = 10 ^ (n - k); lo = \<lfloor>x / sc\<rfloor>
      in filter (\<lambda>s. round_double (of_int s * sc) = Finite x) [lo, lo + 1])"

fun closest :: "rat \<Rightarrow> rat \<Rightarrow> int list \<Rightarrow> int" where
  "closest x sc [s] = s"
| "closest x sc (s # t # ss) =
     (let ds = \<bar>of_int s * sc - x\<bar>; dt = \<bar>of_int t * sc - x\<bar>
      in if ds < dt then s else if dt < ds then t else if even s then s else t)"
| "closest x sc [] = 0"

fun shortest :: "rat \<Rightarrow> nat \<Rightarrow> nat list \<Rightarrow> int \<times> nat" where
  "shortest x n [] = (\<lfloor>x / 10 ^ (n - 17)\<rfloor>, 17)"
| "shortest x n (k # ks) =
     (case candidates x n k of
        [] \<Rightarrow> shortest x n ks
      | cs \<Rightarrow> (closest x (10 ^ (n - k)) cs, k))"

definition big_to_string :: "rat \<Rightarrow> jsstring" where
  "big_to_string x =
     (let n = length (digits_of (nat \<lfloor>x\<rfloor>));
          (s, k) = shortest x n [1 ..< 18];
          (ds, e) = (if s = 10 ^ k then ([49], n) else (digits_of (nat s), n - 1))
      in take 1 ds @ (if length ds = 1 then [] else [46] @ drop 1 ds) @ js ''e+'' @ digits_of e)"

definition toFixed :: "nat \<Rightarrow> number \<Rightarrow> jsstring" where
  "toFixed f x =
     (case x of
        NaN \<Rightarrow> js ''NaN''
      | PosInfinity \<Rightarrow> js ''Infinity''
      | NegInfinity \<Rightarrow> js ''-Infinity''
      | Finite q \<Rightarrow>
          (let a = \<bar>q\<bar>;
               m = (if 10 ^ 21 \<le> a then big_to_string a
                    else let d = digits_of (nat \<lfloor>a * 10 ^ f + 1 / 2\<rfloor>);
                             z = (if f \<noteq> 0 \<and> length d \<le> f then replicate (f + 1 - length d) 48 @ d else d)
                         in if f \<noteq> 0 then take (length z - f) z @ [46] @ drop (length z - f) z else z)
           in if q < 0 then [45] @ m else m))"

subsection \<open>parseFloat\<close>

definition isdigit :: "nat \<Rightarrow> bool" where
  "isdigit c \<longleftrightarrow> 48 \<le> c \<and> c \<le> 57"

definition digits_value :: "jsstring \<Rightarrow> nat" where
  "digits_value ds = foldl (\<lambda>a c. 10 * a + (c - 48)) 0 ds"

text \<open>The ExponentPart at the head of a string, if there is one: \<open>e\<close> or \<open>E\<close>, a sign, digits.\<close>

definition exponent_part :: "jsstring \<Rightarrow> int" where
  "exponent_part s =
     (case s of
        [] \<Rightarrow> 0
      | c # r \<Rightarrow>
          if c = 101 \<or> c = 69 then
            (case r of
               [] \<Rightarrow> 0
             | d # r' \<Rightarrow>
                 if d = 45 then - int (digits_value (takeWhile isdigit r'))
                 else if d = 43 then int (digits_value (takeWhile isdigit r'))
                 else int (digits_value (takeWhile isdigit r)))
          else 0)"

text \<open>
  The longest prefix that is a StrUnsignedDecimalLiteral other than \<open>Infinity\<close>, as its
  mathematical value; \<open>None\<close> when no prefix is one.
\<close>

definition decimal_prefix :: "jsstring \<Rightarrow> rat option" where
  "decimal_prefix s =
     (let ip = takeWhile isdigit s; r1 = dropWhile isdigit s
      in case r1 of
           [] \<Rightarrow> if ip = [] then None else Some (of_nat (digits_value ip))
         | c # r2 \<Rightarrow>
             if c = 46 then
               (let fp = takeWhile isdigit r2; r3 = dropWhile isdigit r2
                in if ip = [] \<and> fp = [] then None
                   else Some (of_nat (digits_value (ip @ fp)) * 10 powi (exponent_part r3 - int (length fp))))
             else if ip = [] then None
             else Some (of_nat (digits_value ip) * 10 powi exponent_part r1))"

definition parseFloat :: "jsstring \<Rightarrow> number" where
  "parseFloat s =
     (let t = dropWhile isspace s;
          neg = (case t of [] \<Rightarrow> False | c # r \<Rightarrow> c = 45);
          u = (case t of [] \<Rightarrow> [] | c # r \<Rightarrow> if c = 45 \<or> c = 43 then r else t)
      in if take 8 u = js ''Infinity'' then (if neg then NegInfinity else PosInfinity)
         else (case decimal_prefix u of
                 None \<Rightarrow> NaN
               | Some v \<Rightarrow> round_double (if neg then - v else v)))"

section \<open>simpleReprice\<close>

definition factor :: "number \<Rightarrow> number" where
  "factor percent = one_plus (div100 percent)"

text \<open>The loop \<open>for (const v of (p.variants || []))\<close>, lines 97 to 105.\<close>

fun reprice_variants ::
  "'w remote \<Rightarrow> number \<Rightarrow> variant list \<Rightarrow> nat \<Rightarrow> 'w net \<Rightarrow> (error + nat) \<times> 'w net" where
  "reprice_variants remote fac [] changed s = (Inr changed, s)"
| "reprice_variants remote fac (v # vs) changed s =
     (let priceNum = parseFloat (price v) in
      if \<not> isFinite priceNum then reprice_variants remote fac vs changed s
      else let newPrice = toFixed 2 (num_times priceNum fac) in
        if newPrice \<noteq> price v then
          (case shopify remote (VariantPath (vid v)) (put_init (PricePatch (vid v) newPrice)) s of
             (Inl e, s') \<Rightarrow> (Inl e, s')
           | (Inr d, s') \<Rightarrow> reprice_variants remote fac vs (changed + 1) s')
        else reprice_variants remote fac vs changed s)"

definition reprice_product :: "'w remote \<Rightarrow> number \<Rightarrow> nat \<Rightarrow> product \<Rightarrow> 'w net \<Rightarrow> (error + nat) \<times> 'w net" where
  "reprice_product remote fac changed p s =
     reprice_variants remote fac (case variants p of None \<Rightarrow> [] | Some vs \<Rightarrow> vs) changed s"

definition simpleReprice :: "'w remote \<Rightarrow> number \<Rightarrow> 'w net \<Rightarrow> ((error + run_result) \<times> 'w net) option" where
  "simpleReprice remote percent s =
     (case paginate remote
             (\<lambda>sinceId. ProductsPage 100 sinceId (Some (js ''id,title,variants'')))
             (reprice_product remote (factor percent)) 0 0 s of
        None \<Rightarrow> None
      | Some (Inl e, s') \<Rightarrow> Some (Inl e, s')
      | Some (Inr changed, s') \<Rightarrow> Some (Inr (Changed changed), s'))"

section \<open>A store that behaves\<close>

text \<open>
  The remote the run-level theorems are stated for: a catalog of products (\<open>ascending\<close>
  below says that it is held in the order of its identifiers). A page request is answered
  with the first products whose identifier is above \<open>since_id\<close>, at most \<open>limit\<close> of them
  and at most \<open>cap\<close>, the largest page the store is willing to serve; a page holds whole
  products, whatever \<open>fields\<close> asks for (the code reads no field it did not ask for). A write to a product or variant the
  catalog holds is applied and acknowledged; a write to an unknown identifier is answered
  404, any other request 400. \<open>fault\<close> lets the environment fail chosen calls: when it names
  a reply for a call, the store is not touched and that reply is what \<open>fetch\<close> sees.
\<close>

definition above :: "nat \<Rightarrow> product list \<Rightarrow> product list" where
  "above k cat = filter (\<lambda>q. k < pid q) cat"

fun patch_product :: "patch \<Rightarrow> product \<Rightarrow> product" where
  "patch_product (BodyHtmlPatch i h) q = (if pid q = i then q\<lparr>body_html := Some h\<rparr> else q)"
| "patch_product (StatusPatch i st) q = (if pid q = i then q\<lparr>status := st\<rparr> else q)"
| "patch_product (PricePatch i pr) q =
     q\<lparr>variants := map_option (map (\<lambda>v. if vid v = i then v\<lparr>price := pr\<rparr> else v)) (variants q)\<rparr>"

definition ok_reply :: reply where
  "ok_reply = Response 200 [] (Some (Json None))"

definition not_found :: reply where
  "not_found = Response 404 (js ''Not Found'') None"

definition bad_request :: reply where
  "bad_request = Response 400 (js ''Bad Request'') None"

definition variants_of :: "product \<Rightarrow> variant list" where
  "variants_of p = (case variants p of None \<Rightarrow> [] | Some vs \<Rightarrow> vs)"

fun respond :: "nat \<Rightarrow> path \<Rightarrow> verb option \<Rightarrow> patch option \<Rightarrow> product list \<Rightarrow> reply \<times> product list" where
  "respond cap (ProductsPage limit since flds) None None cat =
     (Response 200 [] (Some (Json (Some (take (min limit cap) (above since cat))))), cat)"
| "respond cap (ProductPath i) (Some PUT) (Some (BodyHtmlPatch j h)) cat =
     (if i = j \<and> i \<in> pid ` set cat then (ok_reply, map (patch_product (BodyHtmlPatch j h)) cat)
      else (not_found, cat))"
| "respond cap (ProductPath i) (Some PUT) (Some (StatusPatch j st)) cat =
     (if i = j \<and> i \<in> pid ` set cat then (ok_reply, map (patch_product (StatusPatch j st)) cat)
      else (not_found, cat))"
| "respond cap (VariantPath i) (Some PUT) (Some (PricePatch j pr)) cat =
     (if i = j \<and> i \<in> vid ` (\<Union>q \<in> set cat. set (variants_of q))
      then (ok_reply, map (patch_product (PricePatch j pr)) cat)
      else (not_found, cat))"
| "respond cap _ _ _ cat = (bad_request, cat)"

definition store_remote :: "(path \<Rightarrow> init \<Rightarrow> reply option) \<Rightarrow> nat \<Rightarrow> product list remote" where
  "store_remote fault cap pa ini cat =
     (case fault pa ini of
        Some rep \<Rightarrow> (rep, cat)
      | None \<Rightarrow> respond cap pa (http_method ini) (http_body ini) cat)"

text \<open>
  The identifiers of a catalog are within the range a double holds exactly, and no variant
  identifier occurs in two products.
\<close>

definition safe_ids :: "product list \<Rightarrow> bool" where
  "safe_ids cat \<longleftrightarrow>
     (\<forall>p \<in> set cat. pid p \<le> 2 ^ 53 \<and> (\<forall>v \<in> set (variants_of p). vid v \<le> 2 ^ 53))"

definition variants_apart :: "product list \<Rightarrow> bool" where
  "variants_apart cat \<longleftrightarrow>
     (\<forall>p \<in> set cat. \<forall>q \<in> set cat. pid q \<noteq> pid p \<longrightarrow>
        vid ` set (variants_of p) \<inter> vid ` set (variants_of q) = {})"

definition no_fault :: "path \<Rightarrow> init \<Rightarrow> reply option" where
  "no_fault pa ini = None"

definition start :: "product list \<Rightarrow> product list net" where
  "start cat = \<lparr>world = cat, calls = [], visited = []\<rparr>"

definition quantity_of :: "variant \<Rightarrow> int" where
  "quantity_of v = (case inventory_quantity v of None \<Rightarrow> 0 | Some q \<Rightarrow> q)"

definition spec_hide_needed :: "product \<Rightarrow> bool" where
  "spec_hide_needed p \<longleftrightarrow>
     (\<forall>v \<in> set (variants_of p). truthy (inventory_management v) \<longrightarrow> quantity_of v \<le> 0)
     \<and> status p \<noteq> js ''draft''"

definition spec_normalize :: "jsstring \<Rightarrow> jsstring" where
  "spec_normalize s = replace_ws (trim s)"

definition spec_same_description :: "product \<Rightarrow> bool" where
  "spec_same_description p \<longleftrightarrow>
     take 160 (spec_normalize (or_default (body_html p) [])) = take 160 (spec_normalize (buildDescription p))"

definition mk_product :: "nat \<Rightarrow> string \<Rightarrow> jsstring option \<Rightarrow> variant list \<Rightarrow> string \<Rightarrow> product" where
  "mk_product i t b vs st =
     \<lparr>pid = i, title = js t, vendor = None, body_html = b, variants = Some vs, status = js st\<rparr>"

definition mk_variant :: "nat \<Rightarrow> string \<Rightarrow> int option \<Rightarrow> jsvalue \<Rightarrow> variant" where
  "mk_variant i pr q m = \<lparr>vid = i, price = js pr, inventory_quantity = q, inventory_management = m\<rparr>"

section \<open>Strings and the description\<close>

lemma trim_wrap:
  assumes "A \<noteq> []" "\<not> isspace (hd A)" "\<not> isspace (last A)"
  shows "trim (nl @ A @ nl) = A"
proof -
  have sp: "isspace 10"
    by (simp add: isspace_def)
  obtain a xs where A: "A = a # xs"
    using assms(1) by (cases A) auto
  obtain ys b where B: "A = ys @ [b]"
    using assms(1) by (metis rev_exhaust)
  have 1: "dropWhile isspace (nl @ A @ nl) = A @ nl"
    using assms(2) sp by (simp add: nl_def A)
  have 2: "dropWhile isspace (rev (A @ nl)) = rev A"
    using assms(3) sp by (simp add: nl_def B)
  show ?thesis
    unfolding trim_def 1 2 by simp
qed

lemma js_Cons: "js (c # cs) = of_char c # js cs"
  by (simp add: js_def)

lemma js_snoc: "js (cs @ [c]) = js cs @ [of_char c]"
  by (simp add: js_def)

definition description_text :: "product \<Rightarrow> jsstring" where
  "description_text p =
     js ''<p><strong>'' @ title p @ js ''</strong> '' @ [0x2014]
        @ js '' designed for happy, healthy pets.</p>'' @
     nl @ js ''<h3>Key Benefits</h3>'' @
     nl @ js ''<ul>'' @
     nl @ js ''<li>Supports healthy posture</li>'' @
     nl @ js ''<li>Reduces mess & choking</li>'' @
     nl @ js ''<li>Durable for daily use</li>'' @
     nl @ js ''<li>Easy to clean</li>'' @
     nl @ js ''</ul>'' @
     nl @ js ''<h3>Product Details</h3>'' @
     nl @ js ''<ul>'' @
     nl @ js ''<li>Brand: '' @ or_default (vendor p) (js ''FuzzleToys'') @ js ''</li>'' @
     nl @ js ''<li>Material: Pet-safe materials</li>'' @
     nl @ js ''</ul>'' @
     nl @ js ''<h3>Shipping & Returns</h3>'' @
     nl @ js ''<p>Fast US shipping. 30-day hassle-free returns.</p>''"

lemma buildDescription_unfold: "buildDescription p = description_text p"
proof -
  have sp: "\<not> isspace 60" "\<not> isspace 62"
    by (simp_all add: isspace_def)
  have l: "last (js ''<p>Fast US shipping. 30-day hassle-free returns.</p>'') = 62"
    by (simp add: js_def)
  have ln: "js ''<p>Fast US shipping. 30-day hassle-free returns.</p>'' \<noteq> []"
    by (simp add: js_def)
  have h: "hd (js ''<p><strong>'' @ xs) = 60" for xs
    by (simp add: js_def)
  have hn: "js ''<p><strong>'' \<noteq> []"
    by (simp add: js_def)
  have "buildDescription p = trim (nl @ description_text p @ nl)"
    unfolding buildDescription_def description_text_def by simp
  also have "\<dots> = description_text p"
  proof (rule trim_wrap)
    show "description_text p \<noteq> []"
      unfolding description_text_def using hn by simp
    show "\<not> isspace (hd (description_text p))"
      unfolding description_text_def h by (rule sp)
    show "\<not> isspace (last (description_text p))"
      unfolding description_text_def using l ln sp by simp
  qed
  finally show ?thesis .
qed

lemma dropWhile_rev_trimmed:
  assumes "xs = [] \<or> \<not> P (hd xs)"
  shows "dropWhile P (rev (dropWhile P (rev xs))) = rev (dropWhile P (rev xs))"
proof (cases "dropWhile P (rev xs) = []")
  case True
  show ?thesis unfolding True by simp
next
  case False
  have split: "rev xs = takeWhile P (rev xs) @ dropWhile P (rev xs)"
    by simp
  then have "xs = rev (dropWhile P (rev xs)) @ rev (takeWhile P (rev xs))"
    by (metis rev_append rev_rev_ident)
  with False have "hd (rev (dropWhile P (rev xs))) = hd xs"
    by (metis hd_append2 rev_is_Nil_conv)
  moreover from False assms have "\<not> P (hd xs)"
    by auto
  ultimately show ?thesis
    using False by (cases "rev (dropWhile P (rev xs))") auto
qed

lemma trim_trim: "trim (trim s) = trim s"
proof -
  have "dropWhile isspace s = [] \<or> \<not> isspace (hd (dropWhile isspace s))"
    by (metis hd_dropWhile)
  from dropWhile_rev_trimmed[of "dropWhile isspace s" isspace, OF this] show ?thesis
    by (simp add: trim_def)
qed

lemma buildDescription_trimmed: "trim (buildDescription p) = buildDescription p"
  by (simp add: buildDescription_def trim_trim)

lemma buildDescription_nonempty: "buildDescription p \<noteq> []"
  by (simp add: buildDescription_unfold description_text_def js_def)

definition spaced :: product where
  "spaced = mk_product 1 ''A''
     (Some (js ''<p><strong>A</strong>  '' @ [0x2014] @ js '' designed for happy, healthy pets.</p>'' @
            nl @ js ''<h3>Key Benefits</h3>'' @
            nl @ js ''<ul>'' @
            nl @ js ''<li>Supports healthy posture</li>'' @
            nl @ js ''<li>Reduces mess & choking</li>'' @
            nl @ js ''<li>Durable for daily use</li>''))
     [] ''active''"

lemma isspace_fast:
  "isspace c = (if c < 33 then (9 \<le> c \<and> c \<le> 13) \<or> c = 32
                else if c < 160 then False
                else c \<in> {0xA0, 0x1680, 0x2028, 0x2029, 0x202F, 0x205F, 0x3000, 0xFEFF} \<or> (0x2000 \<le> c \<and> c \<le> 0x200A))"
  unfolding isspace_def by (cases "c < 33") auto

lemma spaced_code: "\<not> same_description spaced"
  by (simp add: same_description_def buildDescription_unfold description_text_def spaced_def
      mk_product_def or_default_def slice0_def trim_def js_def nl_def isspace_fast)

lemma spaced_spec: "spec_same_description spaced"
  by (simp add: spec_same_description_def spec_normalize_def buildDescription_unfold description_text_def spaced_def
      mk_product_def or_default_def trim_def js_def nl_def isspace_fast)

text \<open>
  Claim C1 as the specification words it: normalise first (trim, collapse whitespace runs),
  then compare the first 160 code units. The product \<open>spaced\<close> carries the proposed
  description with one extra space after \<open></strong>\<close>: the two normalised forms agree on
  their first 160 code units, yet the code slices before it collapses, compares 159 code
  units against 160 and does not skip the product.
\<close>

theorem description_check_order_counterexample:
  "spec_same_description spaced \<and> \<not> same_description spaced"
  using spaced_code spaced_spec by simp

section \<open>The per-product decisions\<close>

lemma shopify_calls:
  "calls (snd (shopify remote pa ini s)) = calls s @ [Call pa ini (fst (remote pa ini (world s)))]"
  by (simp add: shopify_def Let_def split: prod.splits reply.splits option.splits)

text \<open>
  Claim C1, amended: a product is skipped (the step returns its accumulators and the state
  unchanged: no call, no count, no preview entry) exactly when the whitespace-collapsed
  first 160 code units of the trimmed current description equal the whitespace-collapsed
  first 160 code units of the proposed description. The slice comes before the collapse.
\<close>

theorem description_check_slices_then_collapses:
  "update_product remote apply acc p s = (Inr acc, s)
     \<longleftrightarrow> replace_ws (take 160 (trim (or_default (body_html p) [])))
           = replace_ws (take 160 (buildDescription p))"
proof (cases "same_description p")
  case True
  then show ?thesis
    by (simp add: update_product_def same_description_def slice0_def Let_def split: prod.splits)
next
  case False
  obtain updated preview where acc: "acc = (updated, preview)"
    by (cases acc)
  have "update_product remote apply acc p s \<noteq> (Inr acc, s)"
  proof (cases "apply")
    case True
    let ?r = "shopify remote (ProductPath (pid p)) (put_init (BodyHtmlPatch (pid p) (buildDescription p))) s"
    show ?thesis
      using False True acc by (cases ?r; cases "fst ?r") (auto simp: update_product_def)
  next
    case no: False
    show ?thesis
      using False no acc by (simp add: update_product_def)
  qed
  with False show ?thesis
    by (simp add: same_description_def slice0_def Let_def)
qed

definition sold_out :: product where
  "sold_out = mk_product 1 ''Bowl'' None
     [mk_variant 11 ''9.99'' (Some 0) (JBool True), mk_variant 12 ''12.50'' (Some 0) (JBool True)]
     ''active''"

definition untracked :: product where
  "untracked = mk_product 3 ''Leash'' None [mk_variant 31 ''9.99'' (Some 0) (JBool False)] ''active''"

lemma allZero_iff:
  "allZero p \<longleftrightarrow> (\<forall>v \<in> set (variants_of p). quantity_of v \<le> 0 \<and> truthy (inventory_management v))"
  by (simp add: allZero_def variants_of_def zero_and_tracked_def quantity_of_def list_all_iff)

text \<open>
  Claim C2, amended: the stock-hide step issues the write of the hidden status exactly
  when every variant of the product is management-tracked and reports a quantity of at
  most 0 (an absent quantity counting as 0) and the status is not already \<open>draft\<close>; in
  every other case it leaves the count and the state as they are. A product without
  variants meets the condition; one untracked variant is enough to keep the product.
\<close>

theorem hide_rule:
  "((\<exists>rep. calls (snd (hide_product remote hidden p s))
            = calls s @ [Call (ProductPath (pid p)) (put_init (StatusPatch (pid p) (js ''draft''))) rep])
      \<longleftrightarrow> (\<forall>v \<in> set (variants_of p). quantity_of v \<le> 0 \<and> truthy (inventory_management v))
          \<and> status p \<noteq> js ''draft'')
   \<and> (hide_product remote hidden p s = (Inr hidden, s)
      \<longleftrightarrow> \<not> ((\<forall>v \<in> set (variants_of p). quantity_of v \<le> 0 \<and> truthy (inventory_management v))
             \<and> status p \<noteq> js ''draft''))"
proof (cases "allZero p \<and> status p \<noteq> js ''draft''")
  case True
  let ?r = "shopify remote (ProductPath (pid p)) (put_init (StatusPatch (pid p) (js ''draft''))) s"
  have c: "calls (snd ?r) = calls s @ [Call (ProductPath (pid p)) (put_init (StatusPatch (pid p) (js ''draft'')))
             (fst (remote (ProductPath (pid p)) (put_init (StatusPatch (pid p) (js ''draft''))) (world s)))]"
    by (rule shopify_calls)
  have h: "hide_product remote hidden p s =
      (case ?r of (Inl e, s') \<Rightarrow> (Inl e, s') | (Inr _, s') \<Rightarrow> (Inr (hidden + 1), s'))"
    using True by (simp add: hide_product_def)
  have s: "snd (hide_product remote hidden p s) = snd ?r"
    unfolding h by (cases ?r; cases "fst ?r") auto
  have "hide_product remote hidden p s \<noteq> (Inr hidden, s)"
    unfolding h by (cases ?r; cases "fst ?r") auto
  moreover have "\<exists>rep. calls (snd (hide_product remote hidden p s))
            = calls s @ [Call (ProductPath (pid p)) (put_init (StatusPatch (pid p) (js ''draft''))) rep]"
    unfolding s c by blast
  ultimately show ?thesis
    using True unfolding allZero_iff by blast
next
  case False
  then have "hide_product remote hidden p s = (Inr hidden, s)"
    by (auto simp: hide_product_def)
  then show ?thesis
    using False unfolding allZero_iff by auto
qed

theorem hide_rule_witness:
  "(\<exists>rep. calls (snd (hide_product (store_remote no_fault 250) 0 sold_out (start [sold_out])))
            = calls (start [sold_out]) @
              [Call (ProductPath (pid sold_out)) (put_init (StatusPatch (pid sold_out) (js ''draft''))) rep])
   \<and> hide_product (store_remote no_fault 250) 0 sold_out (start [sold_out]) \<noteq> (Inr 0, start [sold_out])"
proof -
  have "(\<forall>v \<in> set (variants_of sold_out). quantity_of v \<le> 0 \<and> truthy (inventory_management v))
          \<and> status sold_out \<noteq> js ''draft''"
    by (simp add: sold_out_def mk_product_def mk_variant_def variants_of_def quantity_of_def js_def)
  then show ?thesis
    using hide_rule[of "store_remote no_fault 250" 0 sold_out "start [sold_out]"] by blast
qed

text \<open>
  Claim C2 as stated fails on a product whose only variant is untracked with quantity 0:
  every tracked variant (there is none) has no stock and the status is \<open>active\<close>, yet
  the step writes nothing.
\<close>

theorem untracked_variant_counterexample:
  "spec_hide_needed untracked
   \<and> hide_product (store_remote no_fault 250) 0 untracked (start [untracked]) = (Inr 0, start [untracked])"
  by (simp add: spec_hide_needed_def hide_product_def allZero_def zero_and_tracked_def untracked_def
      mk_product_def mk_variant_def variants_of_def quantity_of_def js_def)

text \<open>
  Claim C10: a variant whose quantity is null or absent is judged exactly as a variant
  with a stored quantity of 0: it meets the zero-stock half of the test, so the test
  reduces to its tracking flag, and the step on the product is the same.
\<close>

theorem null_quantity_is_zero:
  "zero_and_tracked (v\<lparr>inventory_quantity := None\<rparr>) = zero_and_tracked (v\<lparr>inventory_quantity := Some 0\<rparr>)
   \<and> zero_and_tracked (v\<lparr>inventory_quantity := None\<rparr>) = truthy (inventory_management v)
   \<and> hide_product remote hidden (p\<lparr>variants := Some (vs @ [v\<lparr>inventory_quantity := None\<rparr>] @ ws)\<rparr>) s
     = hide_product remote hidden (p\<lparr>variants := Some (vs @ [v\<lparr>inventory_quantity := Some 0\<rparr>] @ ws)\<rparr>) s"
  by (simp add: hide_product_def allZero_def zero_and_tracked_def)

section \<open>Bodies that decide, then write\<close>

text \<open>
  Each of the three loop bodies decides from the product alone which writes it issues and
  what it adds to its accumulator, and issues the writes in order, stopping at the first
  that fails. \<open>do_writes\<close> is that sequence of calls and \<open>via_writes\<close> a body of this
  shape; the lemmas \<open>update_product_via\<close>, \<open>hide_product_via\<close> and (further on)
  \<open>reprice_product_via\<close> show that the bodies of \<open>index.mjs\<close> are such bodies.
\<close>

fun path_of :: "patch \<Rightarrow> path" where
  "path_of (BodyHtmlPatch i h) = ProductPath i"
| "path_of (StatusPatch i st) = ProductPath i"
| "path_of (PricePatch i pr) = VariantPath i"

fun do_writes :: "'w remote \<Rightarrow> patch list \<Rightarrow> 'w net \<Rightarrow> (error + unit) \<times> 'w net" where
  "do_writes remote [] s = (Inr (), s)"
| "do_writes remote (pt # pts) s =
     (case shopify remote (path_of pt) (put_init pt) s of
        (Inl e, s') \<Rightarrow> (Inl e, s')
      | (Inr d, s') \<Rightarrow> do_writes remote pts s')"

definition via_writes ::
  "'w remote \<Rightarrow> (product \<Rightarrow> patch list) \<Rightarrow> ('a \<Rightarrow> product \<Rightarrow> 'a) \<Rightarrow> 'a \<Rightarrow> product \<Rightarrow> 'w net
     \<Rightarrow> (error + 'a) \<times> 'w net" where
  "via_writes remote wr accf acc p s =
     (case do_writes remote (wr p) s of
        (Inl e, s') \<Rightarrow> (Inl e, s')
      | (Inr u, s') \<Rightarrow> (Inr (accf acc p), s'))"

definition description_writes :: "bool \<Rightarrow> product \<Rightarrow> patch list" where
  "description_writes apply p =
     (if apply \<and> \<not> same_description p then [BodyHtmlPatch (pid p) (buildDescription p)] else [])"

definition description_acc ::
  "bool \<Rightarrow> nat \<times> (nat \<times> jsstring) list \<Rightarrow> product \<Rightarrow> nat \<times> (nat \<times> jsstring) list" where
  "description_acc apply acc p =
     (if same_description p then acc
      else if apply then (fst acc + 1, snd acc)
      else (fst acc, snd acc @ [(pid p, title p)]))"

definition hide_writes :: "product \<Rightarrow> patch list" where
  "hide_writes p = (if allZero p \<and> status p \<noteq> js ''draft'' then [StatusPatch (pid p) (js ''draft'')] else [])"

definition hide_acc :: "nat \<Rightarrow> product \<Rightarrow> nat" where
  "hide_acc hidden p = (if allZero p \<and> status p \<noteq> js ''draft'' then hidden + 1 else hidden)"

lemma update_product_via:
  "update_product remote apply = via_writes remote (description_writes apply) (description_acc apply)"
  by (intro ext)
    (auto simp: update_product_def via_writes_def description_writes_def description_acc_def
      split: prod.splits sum.splits)

lemma hide_product_via: "hide_product remote = via_writes remote hide_writes hide_acc"
  by (intro ext)
    (auto simp: hide_product_def via_writes_def hide_writes_def hide_acc_def
      split: prod.splits sum.splits)

section \<open>Calls on the store\<close>

text \<open>
  How the log of a run is read: \<open>write_calls\<close> are its PUT calls, \<open>pages\<close> the product lists
  its page requests were answered with, \<open>ok_call pt\<close> the acknowledged write of \<open>pt\<close>. A
  reply \<open>failed\<close> when \<open>fetch\<close> rejected or the status is outside 200..299, and \<open>error_of\<close>
  is the error \<open>shopify\<close> throws for it. \<open>chunks n xs\<close> cuts \<open>xs\<close> into consecutive pieces
  of \<open>n\<close>, the last one possibly shorter. A catalog is \<open>ascending\<close> when its identifiers
  increase strictly along it.
\<close>

definition is_write :: "call \<Rightarrow> bool" where
  "is_write c = (case c of Call pa ini rep \<Rightarrow> http_method ini = Some PUT)"

definition write_calls :: "call list \<Rightarrow> call list" where
  "write_calls cs = filter is_write cs"

fun is_page :: "call \<Rightarrow> bool" where
  "is_page (Call (ProductsPage limit since flds) ini rep) = True"
| "is_page (Call pa ini rep) = False"

fun page_of :: "call \<Rightarrow> product list" where
  "page_of (Call pa ini (Response st txt (Some (Json (Some ps))))) = ps"
| "page_of (Call pa ini rep) = []"

definition pages :: "call list \<Rightarrow> product list list" where
  "pages cs = map page_of (filter is_page cs)"

definition ok_call :: "patch \<Rightarrow> call" where
  "ok_call pt = Call (path_of pt) (put_init pt) ok_reply"

definition failed :: "reply \<Rightarrow> bool" where
  "failed rep = (case rep of Rejected m \<Rightarrow> True | Response st txt parsed \<Rightarrow> \<not> res_ok st)"

definition error_of :: "path \<Rightarrow> init \<Rightarrow> reply \<Rightarrow> error" where
  "error_of pa ini rep =
     (case rep of
        Rejected m \<Rightarrow> FetchError m
      | Response st txt parsed \<Rightarrow>
          ShopifyError st (case http_method ini of None \<Rightarrow> GET | Some m \<Rightarrow> m) pa txt)"

text \<open>
  \<open>owned q pt\<close>: the patch \<open>pt\<close> is addressed to the product \<open>q\<close> (by its identifier) or
  to one of its variants. The store accepts a write when some product of the catalog owns
  the patch, and a product that does not own the patch is not changed by it.
\<close>

definition owned :: "product \<Rightarrow> patch \<Rightarrow> bool" where
  "owned q pt = (case pt of BodyHtmlPatch i h \<Rightarrow> i = pid q | StatusPatch i st \<Rightarrow> i = pid q
                 | PricePatch i pr \<Rightarrow> i \<in> vid ` set (variants_of q))"

definition chunks :: "nat \<Rightarrow> 'a list \<Rightarrow> 'a list list" where
  "chunks n xs = map (\<lambda>i. take n (drop (i * n) xs)) [0 ..< (length xs + n - 1) div n]"

definition ascending :: "product list \<Rightarrow> bool" where
  "ascending cat = sorted_wrt (<) (map pid cat)"

lemma write_calls_append [simp]: "write_calls (xs @ ys) = write_calls xs @ write_calls ys"
  by (simp add: write_calls_def)

lemma pages_append [simp]: "pages (xs @ ys) = pages xs @ pages ys"
  by (simp add: pages_def)

lemma write_calls_ok [simp]: "write_calls (map ok_call W) = map ok_call W"
  by (induction W) (auto simp: write_calls_def ok_call_def is_write_def put_init_def)

lemma pages_ok [simp]: "pages (map ok_call W) = []"
proof -
  have "\<not> is_page (ok_call pt)" for pt
    by (cases pt) (simp_all add: ok_call_def)
  then show ?thesis
    by (simp add: pages_def)
qed

lemma shopify_visited:
  "shopify remote pa ini (s\<lparr>visited := v\<rparr>) =
     (fst (shopify remote pa ini s), (snd (shopify remote pa ini s))\<lparr>visited := v\<rparr>)"
  by (simp add: shopify_def Let_def split: prod.splits reply.splits option.splits)

lemma shopify_page:
  assumes "fault (ProductsPage limit sid flds) no_init = None"
  shows "shopify (store_remote fault cap) (ProductsPage limit sid flds) no_init s =
     (Inr (Json (Some (take (min limit cap) (above sid (world s))))),
      s\<lparr>calls := calls s @ [Call (ProductsPage limit sid flds) no_init
           (Response 200 [] (Some (Json (Some (take (min limit cap) (above sid (world s)))))))]\<rparr>)"
  using assms by (simp add: shopify_def store_remote_def no_init_def res_ok_def)

lemma shopify_put:
  assumes "fault (path_of pt) (put_init pt) = None" "\<exists>q \<in> set (world s). owned q pt"
  shows "shopify (store_remote fault cap) (path_of pt) (put_init pt) s =
     (Inr (Json None),
      s\<lparr>world := map (patch_product pt) (world s), calls := calls s @ [ok_call pt]\<rparr>)"
  using assms
  by (cases pt) (auto simp: shopify_def store_remote_def put_init_def res_ok_def ok_reply_def owned_def ok_call_def)

lemma shopify_fault:
  assumes "fault pa ini = Some rep" "failed rep"
  shows "shopify (store_remote fault cap) pa ini s =
     (Inl (error_of pa ini rep), s\<lparr>calls := calls s @ [Call pa ini rep]\<rparr>)"
  using assms
  by (cases rep) (auto simp: shopify_def store_remote_def failed_def error_of_def)

lemma pid_patch_product [simp]: "pid (patch_product pt q) = pid q"
  by (cases pt) auto

lemma pid_fold_patch [simp]: "pid (fold patch_product W q) = pid q"
  by (induction W arbitrary: q) auto

lemma map_pid_patched [simp]: "map pid (map (fold patch_product W) cat) = map pid cat"
  by (simp add: comp_def)

lemma vids_patch_product [simp]:
  "vid ` set (variants_of (patch_product pt q)) = vid ` set (variants_of q)"
proof (cases pt)
  case (PricePatch i pr)
  have "vid ` (\<lambda>v. if vid v = i then v\<lparr>price := pr\<rparr> else v) ` set vs = vid ` set vs" for vs
    by (rule image_cong[OF refl, of _ "vid \<circ> (\<lambda>v. if vid v = i then v\<lparr>price := pr\<rparr> else v)" vid, unfolded image_comp[symmetric]])
      simp
  then show ?thesis
    by (cases "variants q") (simp_all add: PricePatch variants_of_def)
qed (simp_all add: variants_of_def)

lemma owned_patch_product [simp]: "owned (patch_product pt' q) pt = owned q pt"
  by (cases pt) (simp_all add: owned_def)

lemma owned_fold_patch [simp]: "owned (fold patch_product W q) pt = owned q pt"
  by (induction W arbitrary: q) simp_all

lemma owner_kept: "(\<exists>q \<in> set (map (patch_product pt') cat). owned q pt) \<longleftrightarrow> (\<exists>q \<in> set cat. owned q pt)"
  by simp

lemma patch_other:
  assumes "\<not> owned q pt"
  shows "patch_product pt q = q"
proof (cases pt)
  case (PricePatch i pr)
  with assms have "\<forall>v \<in> set (variants_of q). vid v \<noteq> i"
    by (auto simp: owned_def)
  then have "map (\<lambda>v. if vid v = i then v\<lparr>price := pr\<rparr> else v) vs = vs" if "variants q = Some vs" for vs
    using that by (simp add: variants_of_def map_idI)
  then show ?thesis
    by (cases "variants q") (simp_all add: PricePatch)
qed (use assms in \<open>simp_all add: owned_def\<close>)

lemma fold_patch_other:
  assumes "\<forall>pt \<in> set W. \<not> owned q pt"
  shows "fold patch_product W q = q"
  using assms by (induction W) (simp_all add: patch_other)

section \<open>Sequences of writes on the store\<close>

lemma do_writes_ok:
  assumes "\<forall>pt \<in> set W. fault (path_of pt) (put_init pt) = None \<and> (\<exists>q \<in> set (world s). owned q pt)"
  shows "do_writes (store_remote fault cap) W s =
     (Inr (), s\<lparr>world := map (fold patch_product W) (world s), calls := calls s @ map ok_call W\<rparr>)"
  using assms
proof (induction W arbitrary: s)
  case Nil
  then show ?case by simp
next
  case (Cons pt W)
  let ?s1 = "s\<lparr>world := map (patch_product pt) (world s), calls := calls s @ [ok_call pt]\<rparr>"
  have put: "shopify (store_remote fault cap) (path_of pt) (put_init pt) s = (Inr (Json None), ?s1)"
    using Cons.prems by (intro shopify_put) auto
  have "\<forall>x \<in> set W. fault (path_of x) (put_init x) = None \<and> (\<exists>q \<in> set (world ?s1). owned q x)"
    using Cons.prems by simp
  from Cons.IH[OF this]
  have "do_writes (store_remote fault cap) W ?s1 =
     (Inr (), ?s1\<lparr>world := map (fold patch_product W) (world ?s1), calls := calls ?s1 @ map ok_call W\<rparr>)" .
  then show ?case
    by (simp add: put comp_def)
qed

lemma do_writes_fail:
  assumes "\<forall>x \<in> set W1. fault (path_of x) (put_init x) = None \<and> (\<exists>q \<in> set (world s). owned q x)"
    and "fault (path_of pt) (put_init pt) = Some rep" "failed rep"
  shows "do_writes (store_remote fault cap) (W1 @ pt # W2) s =
     (Inl (error_of (path_of pt) (put_init pt) rep),
      s\<lparr>world := map (fold patch_product W1) (world s),
        calls := calls s @ map ok_call W1 @ [Call (path_of pt) (put_init pt) rep]\<rparr>)"
  using assms(1)
proof (induction W1 arbitrary: s)
  case Nil
  show ?case
    using shopify_fault[of fault "path_of pt" "put_init pt" rep, OF assms(2,3)] by simp
next
  case (Cons y W1)
  let ?s1 = "s\<lparr>world := map (patch_product y) (world s), calls := calls s @ [ok_call y]\<rparr>"
  have put: "shopify (store_remote fault cap) (path_of y) (put_init y) s = (Inr (Json None), ?s1)"
    using Cons.prems by (intro shopify_put) auto
  have "\<forall>x \<in> set W1. fault (path_of x) (put_init x) = None \<and> (\<exists>q \<in> set (world ?s1). owned q x)"
    using Cons.prems by simp
  from Cons.IH[OF this]
  have "do_writes (store_remote fault cap) (W1 @ pt # W2) ?s1 =
     (Inl (error_of (path_of pt) (put_init pt) rep),
      ?s1\<lparr>world := map (fold patch_product W1) (world ?s1),
        calls := calls ?s1 @ map ok_call W1 @ [Call (path_of pt) (put_init pt) rep]\<rparr>)" .
  then show ?case
    by (simp add: put comp_def)
qed

lemma for_products_ok:
  assumes "\<forall>p \<in> set ps. \<forall>pt \<in> set (wr p).
             fault (path_of pt) (put_init pt) = None \<and> (\<exists>q \<in> set (world s). owned q pt)"
  shows "for_products (via_writes (store_remote fault cap) wr accf) ps (sid, acc) s =
     (Inr (last (sid # map pid ps), foldl accf acc ps),
      s\<lparr>world := map (fold patch_product (concat (map wr ps))) (world s),
        calls := calls s @ map ok_call (concat (map wr ps)),
        visited := visited s @ map pid ps\<rparr>)"
  using assms
proof (induction ps arbitrary: sid acc s)
  case Nil
  then show ?case by simp
next
  case (Cons p ps)
  let ?s0 = "s\<lparr>visited := visited s @ [pid p]\<rparr>"
  let ?s1 = "?s0\<lparr>world := map (fold patch_product (wr p)) (world ?s0), calls := calls ?s0 @ map ok_call (wr p)\<rparr>"
  have w: "do_writes (store_remote fault cap) (wr p) ?s0 = (Inr (), ?s1)"
    using Cons.prems by (intro do_writes_ok) auto
  have "\<forall>p \<in> set ps. \<forall>pt \<in> set (wr p).
          fault (path_of pt) (put_init pt) = None \<and> (\<exists>q \<in> set (world ?s1). owned q pt)"
    using Cons.prems by simp
  from Cons.IH[OF this]
  have "for_products (via_writes (store_remote fault cap) wr accf) ps (pid p, accf acc p) ?s1 =
     (Inr (last (pid p # map pid ps), foldl accf (accf acc p) ps),
      ?s1\<lparr>world := map (fold patch_product (concat (map wr ps))) (world ?s1),
        calls := calls ?s1 @ map ok_call (concat (map wr ps)),
        visited := visited ?s1 @ map pid ps\<rparr>)" .
  moreover have "via_writes (store_remote fault cap) wr accf acc p ?s0 = (Inr (accf acc p), ?s1)"
    by (simp add: via_writes_def w)
  ultimately show ?case
    by (simp add: comp_def)
qed

lemma for_products_fail:
  assumes "\<forall>p \<in> set ps1. \<forall>x \<in> set (wr p).
             fault (path_of x) (put_init x) = None \<and> (\<exists>q \<in> set (world s). owned q x)"
    and "wr p = W1 @ pt # W2"
    and "\<forall>x \<in> set W1. fault (path_of x) (put_init x) = None \<and> (\<exists>q \<in> set (world s). owned q x)"
    and "fault (path_of pt) (put_init pt) = Some rep" "failed rep"
  shows "for_products (via_writes (store_remote fault cap) wr accf) (ps1 @ p # ps2) (sid, acc) s =
     (Inl (error_of (path_of pt) (put_init pt) rep),
      s\<lparr>world := map (fold patch_product (concat (map wr ps1) @ W1)) (world s),
        calls := calls s @ map ok_call (concat (map wr ps1) @ W1) @ [Call (path_of pt) (put_init pt) rep],
        visited := visited s @ map pid (ps1 @ [p])\<rparr>)"
  using assms(1,3)
proof (induction ps1 arbitrary: sid acc s)
  case Nil
  let ?s0 = "s\<lparr>visited := visited s @ [pid p]\<rparr>"
  have "do_writes (store_remote fault cap) (W1 @ pt # W2) ?s0 =
     (Inl (error_of (path_of pt) (put_init pt) rep),
      ?s0\<lparr>world := map (fold patch_product W1) (world ?s0),
        calls := calls ?s0 @ map ok_call W1 @ [Call (path_of pt) (put_init pt) rep]\<rparr>)"
    using Nil.prems(2) assms(4,5) by (intro do_writes_fail) auto
  then show ?case
    by (simp add: via_writes_def assms(2))
next
  case (Cons y ps1)
  let ?s0 = "s\<lparr>visited := visited s @ [pid y]\<rparr>"
  let ?s1 = "?s0\<lparr>world := map (fold patch_product (wr y)) (world ?s0), calls := calls ?s0 @ map ok_call (wr y)\<rparr>"
  have w: "do_writes (store_remote fault cap) (wr y) ?s0 = (Inr (), ?s1)"
    using Cons.prems by (intro do_writes_ok) auto
  have a: "\<forall>p \<in> set ps1. \<forall>x \<in> set (wr p).
          fault (path_of x) (put_init x) = None \<and> (\<exists>q \<in> set (world ?s1). owned q x)"
    using Cons.prems(1) by simp
  have b: "\<forall>x \<in> set W1. fault (path_of x) (put_init x) = None \<and> (\<exists>q \<in> set (world ?s1). owned q x)"
    using Cons.prems(2) by simp
  from Cons.IH[OF a b]
  have "for_products (via_writes (store_remote fault cap) wr accf) (ps1 @ p # ps2) (pid y, accf acc y) ?s1 =
     (Inl (error_of (path_of pt) (put_init pt) rep),
      ?s1\<lparr>world := map (fold patch_product (concat (map wr ps1) @ W1)) (world ?s1),
        calls := calls ?s1 @ map ok_call (concat (map wr ps1) @ W1) @ [Call (path_of pt) (put_init pt) rep],
        visited := visited ?s1 @ map pid (ps1 @ [p])\<rparr>)" .
  moreover have "via_writes (store_remote fault cap) wr accf acc y ?s0 = (Inr (accf acc y), ?s1)"
    by (simp add: via_writes_def w)
  ultimately show ?case
    by (simp add: comp_def)
qed

lemma chunks_Nil [simp]: "chunks n [] = []"
  by (cases n) (simp_all add: chunks_def)

lemma length_chunks: "length (chunks n xs) = (length xs + n - 1) div n"
  by (simp add: chunks_def)

lemma ceil_div_step:
  fixes m n :: nat
  assumes "0 < n" "0 < m"
  shows "(m + n - 1) div n = Suc ((m - n + n - 1) div n)"
proof (cases "n \<le> m")
  case True
  have a: "m + n - 1 = (m - 1) + n"
    using assms(2) by arith
  have b: "m - n + n - 1 = m - 1"
    using True by arith
  have "((m - 1) + n) div n = Suc ((m - 1) div n)"
    using assms(1) by simp
  then show ?thesis
    by (simp only: a b)
next
  case False
  have "n * 1 \<le> m + n - 1" "m + n - 1 < n * Suc 1"
    using False assms by simp_all
  then have "(m + n - 1) div n = 1"
    by (rule div_nat_eqI)
  moreover have "m - n + n - 1 < n"
    using False assms(1) by arith
  then have "(m - n + n - 1) div n = 0"
    by simp
  ultimately show ?thesis
    by (simp only: One_nat_def)
qed

lemma chunks_count:
  assumes "0 < n" "xs \<noteq> []"
  shows "(length xs + n - 1) div n = Suc ((length (drop n xs) + n - 1) div n)"
  using ceil_div_step[of n "length xs"] assms by simp

lemma chunks_step:
  assumes "0 < n" "xs \<noteq> []"
  shows "chunks n xs = take n xs # chunks n (drop n xs)"
proof -
  have "map (\<lambda>i. take n (drop (i * n) xs)) [0 ..< Suc k]
      = take n xs # map (\<lambda>i. take n (drop (i * n) (drop n xs))) [0 ..< k]" for k
    by (simp add: map_upt_Suc ac_simps del: upt_Suc)
  then show ?thesis
    unfolding chunks_def chunks_count[OF assms] by simp
qed

section \<open>One page of the traversal\<close>

definition page_call :: "nat \<Rightarrow> nat \<Rightarrow> jsstring option \<Rightarrow> product list \<Rightarrow> call" where
  "page_call limit sid flds pg =
     Call (ProductsPage limit sid flds) no_init (Response 200 [] (Some (Json (Some pg))))"

lemma page_call_simps [simp]:
  "write_calls (page_call limit sid flds pg # cs) = write_calls cs"
  "pages (page_call limit sid flds pg # cs) = pg # pages cs"
  by (simp_all add: page_call_def write_calls_def pages_def is_write_def no_init_def)

lemma calls_Nil [simp]: "write_calls [] = []" "pages [] = []"
  by (simp_all add: write_calls_def pages_def)

lemma paginate_store_step:
  assumes "fault (ProductsPage limit sid flds) no_init = None"
  shows "paginate (store_remote fault cap) (\<lambda>k. ProductsPage limit k flds) body sid acc s =
     (let pg = take (min limit cap) (above sid (world s));
          s1 = s\<lparr>calls := calls s @ [page_call limit sid flds pg]\<rparr>
      in if pg = [] then Some (Inr acc, s1)
         else (case for_products body pg (sid, acc) s1 of
                 (Inl e, s2) \<Rightarrow> Some (Inl e, s2)
               | (Inr (sid', acc'), s2) \<Rightarrow>
                   paginate (store_remote fault cap) (\<lambda>k. ProductsPage limit k flds) body sid' acc' s2))"
proof -
  define pg where "pg = take (min limit cap) (above sid (world s))"
  have sh: "shopify (store_remote fault cap) (ProductsPage limit sid flds) no_init s =
      (Inr (Json (Some pg)), s\<lparr>calls := calls s @ [page_call limit sid flds pg]\<rparr>)"
    unfolding pg_def page_call_def using shopify_page[of fault limit sid flds, OF assms] by simp
  show ?thesis
    unfolding Let_def pg_def[symmetric]
    by (subst paginate.simps) (cases pg; simp add: sh)
qed

lemma above_map:
  assumes "\<And>q. pid (f q) = pid q"
  shows "above k (map f cat) = map f (above k cat)"
  by (simp add: above_def filter_map comp_def assms)

lemma ascending_above:
  assumes "ascending cat"
  shows "sorted_wrt (\<lambda>a b. pid a < pid b) (above sid cat)"
  using assms unfolding ascending_def above_def sorted_wrt_map
  by (rule sorted_wrt_filter)

lemma sorted_take_drop:
  assumes "sorted_wrt (\<lambda>a b. pid a < pid b) xs" "a \<in> set (take n xs)" "b \<in> set (drop n xs)"
  shows "pid a < pid b"
proof -
  have "sorted_wrt (\<lambda>a b. pid a < pid b) (take n xs @ drop n xs)"
    using assms(1) by simp
  then show ?thesis
    using assms(2,3) unfolding sorted_wrt_append by blast
qed

lemma sorted_le_last:
  assumes "sorted_wrt (\<lambda>a b. pid a < pid b) xs" "a \<in> set xs"
  shows "pid a \<le> pid (last xs)"
proof -
  from assms(2) have ne: "xs \<noteq> []"
    by auto
  then have xs: "xs = butlast xs @ [last xs]"
    by simp
  then have "sorted_wrt (\<lambda>a b. pid a < pid b) (butlast xs @ [last xs])"
    using assms(1) by simp
  then have "\<forall>x \<in> set (butlast xs). pid x < pid (last xs)"
    unfolding sorted_wrt_append by simp
  moreover have "a \<in> set (butlast xs) \<or> a = last xs"
    using assms(2) xs by (metis Un_iff insert_iff list.set(2) set_append empty_iff empty_set)
  ultimately show ?thesis
    by auto
qed

lemma above_after_page:
  assumes "ascending cat" "0 < n" "above sid cat \<noteq> []"
  shows "above (pid (last (take n (above sid cat)))) cat = drop n (above sid cat)"
proof -
  define rest where "rest = above sid cat"
  define pg where "pg = take n rest"
  define L where "L = pid (last pg)"
  have srt: "sorted_wrt (\<lambda>a b. pid a < pid b) rest"
    unfolding rest_def by (rule ascending_above[OF assms(1)])
  have pg_ne: "pg \<noteq> []"
    using assms(2,3) unfolding pg_def rest_def by simp
  then have "last pg \<in> set rest"
    unfolding pg_def by (meson in_set_takeD last_in_set)
  then have sid_L: "sid < L"
    unfolding L_def rest_def above_def by simp
  have "above L cat = filter (\<lambda>q. L < pid q) rest"
    unfolding rest_def above_def using sid_L by (auto intro: filter_cong)
  also have "\<dots> = filter (\<lambda>q. L < pid q) pg @ filter (\<lambda>q. L < pid q) (drop n rest)"
    unfolding pg_def by (metis append_take_drop_id filter_append)
  also have "filter (\<lambda>q. L < pid q) pg = []"
  proof -
    have "sorted_wrt (\<lambda>a b. pid a < pid b) pg"
      unfolding pg_def using srt by (rule sorted_wrt_take)
    then have "\<forall>a \<in> set pg. pid a \<le> L"
      unfolding L_def using sorted_le_last by blast
    then show ?thesis
      by (auto simp: filter_empty_conv)
  qed
  also have "filter (\<lambda>q. L < pid q) (drop n rest) = drop n rest"
  proof -
    have "last pg \<in> set (take n rest)"
      using pg_ne unfolding pg_def by simp
    then have "\<forall>b \<in> set (drop n rest). L < pid b"
      unfolding L_def using sorted_take_drop[OF srt] by blast
    then show ?thesis
      by simp
  qed
  finally show ?thesis
    unfolding L_def pg_def rest_def by simp
qed

section \<open>A traversal in which every write succeeds\<close>

text \<open>
  \<open>writes_ok fault wr cat ps\<close>: for each product \<open>p\<close> of \<open>ps\<close>, no write that the step on
  \<open>p\<close> issues (\<open>wr p\<close>) is made to fail, each is addressed to \<open>p\<close> or one of its variants,
  and to no other product of the catalog \<open>cat\<close>.
\<close>

definition writes_ok ::
  "(path \<Rightarrow> init \<Rightarrow> reply option) \<Rightarrow> (product \<Rightarrow> patch list) \<Rightarrow> product list \<Rightarrow> product list \<Rightarrow> bool" where
  "writes_ok fault wr cat ps \<longleftrightarrow>
     (\<forall>p \<in> set ps. \<forall>pt \<in> set (wr p).
        fault (path_of pt) (put_init pt) = None \<and> owned p pt
        \<and> (\<forall>q \<in> set cat. pid q \<noteq> pid p \<longrightarrow> \<not> owned q pt))"

lemma writes_ok_subset: "writes_ok fault wr cat ps \<Longrightarrow> set qs \<subseteq> set ps \<Longrightarrow> writes_ok fault wr cat qs"
  unfolding writes_ok_def by blast

lemma writes_ok_patched:
  "writes_ok fault wr (map (fold patch_product W) cat) ps = writes_ok fault wr cat ps"
  by (simp add: writes_ok_def)

lemma patched_rest:
  assumes srt: "sorted_wrt (\<lambda>a b. pid a < pid b) rest"
    and own: "\<forall>p \<in> set (take n rest). \<forall>pt \<in> set (wr p). \<forall>q \<in> set rest. pid q \<noteq> pid p \<longrightarrow> \<not> owned q pt"
  shows "map (fold patch_product (concat (map wr (take n rest)))) (drop n rest) = drop n rest"
proof -
  have "fold patch_product (concat (map wr (take n rest))) q = q" if q: "q \<in> set (drop n rest)" for q
  proof (rule fold_patch_other, rule ballI)
    fix pt assume "pt \<in> set (concat (map wr (take n rest)))"
    then obtain p where p: "p \<in> set (take n rest)" "pt \<in> set (wr p)"
      by auto
    have "pid q \<noteq> pid p"
      using sorted_take_drop[OF srt p(1) q] by simp
    moreover have "q \<in> set rest"
      using q by (rule in_set_dropD)
    ultimately show "\<not> owned q pt"
      using own p by blast
  qed
  then show ?thesis
    by (simp add: map_idI)
qed

lemma paginate_store_ok:
  assumes P: "0 < min limit cap"
    and nf: "\<And>k. fault (ProductsPage limit k flds) no_init = None"
    and asc: "ascending (world s)"
    and ok: "writes_ok fault wr (world s) (above sid (world s))"
  shows "\<exists>s'. paginate (store_remote fault cap) (\<lambda>k. ProductsPage limit k flds)
               (via_writes (store_remote fault cap) wr accf) sid acc s
             = Some (Inr (foldl accf acc (above sid (world s))), s')
          \<and> world s' = map (fold patch_product (concat (map wr (above sid (world s))))) (world s)
          \<and> visited s' = visited s @ map pid (above sid (world s))
          \<and> write_calls (calls s') = write_calls (calls s) @ map ok_call (concat (map wr (above sid (world s))))
          \<and> pages (calls s') = pages (calls s) @ chunks (min limit cap) (above sid (world s)) @ [[]]"
  using asc ok
proof (induction "length (above sid (world s))" arbitrary: sid acc s rule: less_induct)
  case less
  let ?R = "store_remote fault cap"
  let ?B = "via_writes ?R wr accf"
  define rest where "rest = above sid (world s)"
  define n where "n = min limit cap"
  define pg where "pg = take n rest"
  define s1 where "s1 = s\<lparr>calls := calls s @ [page_call limit sid flds pg]\<rparr>"
  have step: "paginate ?R (\<lambda>k. ProductsPage limit k flds) ?B sid acc s =
      (if pg = [] then Some (Inr acc, s1)
       else (case for_products ?B pg (sid, acc) s1 of
               (Inl e, s2) \<Rightarrow> Some (Inl e, s2)
             | (Inr (sid', acc'), s2) \<Rightarrow> paginate ?R (\<lambda>k. ProductsPage limit k flds) ?B sid' acc' s2))"
    unfolding pg_def rest_def n_def s1_def
    using paginate_store_step[of fault limit sid flds cap ?B acc s, OF nf] by (simp add: Let_def)
  show ?case
  proof (cases "rest = []")
    case True
    then have "pg = []"
      by (simp add: pg_def)
    then have "paginate ?R (\<lambda>k. ProductsPage limit k flds) ?B sid acc s = Some (Inr acc, s1)"
      using step by simp
    moreover have "world s1 = world s" "visited s1 = visited s"
      "write_calls (calls s1) = write_calls (calls s)" "pages (calls s1) = pages (calls s) @ [[]]"
      using \<open>pg = []\<close> by (simp_all add: s1_def)
    ultimately show ?thesis
      using True unfolding rest_def[symmetric] by simp
  next
    case False
    have n: "0 < n"
      using P by (simp add: n_def)
    have pg_ne: "pg \<noteq> []"
      using False n by (simp add: pg_def)
    have srt: "sorted_wrt (\<lambda>a b. pid a < pid b) rest"
      unfolding rest_def by (rule ascending_above[OF less.prems(1)])
    have rest_split: "rest = pg @ drop n rest"
      by (simp add: pg_def)
    have pg_sub: "set pg \<subseteq> set rest"
      unfolding pg_def by (rule set_take_subset)
    have in_world: "set rest \<subseteq> set (world s)"
      by (auto simp: rest_def above_def)
    have w1: "world s1 = world s"
      by (simp add: s1_def)
    have okpg: "\<forall>p \<in> set pg. \<forall>pt \<in> set (wr p).
        fault (path_of pt) (put_init pt) = None \<and> (\<exists>q \<in> set (world s1). owned q pt)"
      unfolding w1 using less.prems(2) pg_sub in_world unfolding writes_ok_def rest_def[symmetric] by blast
    have apart: "\<forall>p \<in> set (take n rest). \<forall>pt \<in> set (wr p). \<forall>q \<in> set rest. pid q \<noteq> pid p \<longrightarrow> \<not> owned q pt"
      using less.prems(2) pg_sub in_world unfolding writes_ok_def rest_def[symmetric] pg_def by blast
    define W1 where "W1 = concat (map wr pg)"
    define s2 where "s2 = s1\<lparr>world := map (fold patch_product W1) (world s1),
        calls := calls s1 @ map ok_call W1, visited := visited s1 @ map pid pg\<rparr>"
    define sid' where "sid' = pid (last pg)"
    have fp: "for_products ?B pg (sid, acc) s1 = (Inr (sid', foldl accf acc pg), s2)"
      unfolding s2_def W1_def sid'_def
      using for_products_ok[of pg wr fault s1 cap accf sid acc, OF okpg] pg_ne
      by (simp add: last_map)
    have rec: "paginate ?R (\<lambda>k. ProductsPage limit k flds) ?B sid acc s =
        paginate ?R (\<lambda>k. ProductsPage limit k flds) ?B sid' (foldl accf acc pg) s2"
      using step pg_ne fp by simp
    have w2: "world s2 = map (fold patch_product W1) (world s)"
      by (simp add: s2_def s1_def)
    have "map pid (world s2) = map pid (world s)"
      unfolding w2 by (rule map_pid_patched)
    then have asc2: "ascending (world s2)"
      using less.prems(1) by (simp only: ascending_def)
    have "above sid' (world s) = drop n rest"
      unfolding sid'_def pg_def rest_def
      using above_after_page[OF less.prems(1) n] False by (simp add: rest_def)
    then have "above sid' (world s2) = map (fold patch_product W1) (drop n rest)"
      by (simp add: w2 above_map)
    also have "\<dots> = drop n rest"
      unfolding W1_def pg_def by (rule patched_rest[OF srt apart])
    finally have ab2: "above sid' (world s2) = drop n rest" .
    have shorter: "length (above sid' (world s2)) < length (above sid (world s))"
      using False n by (simp add: ab2 rest_def[symmetric])
    have "writes_ok fault wr (world s) (drop n rest)"
      using less.prems(2)
      by (rule writes_ok_subset) (simp add: rest_def[symmetric] set_drop_subset)
    then have ok2: "writes_ok fault wr (world s2) (above sid' (world s2))"
      unfolding ab2 by (simp only: w2 writes_ok_patched)
    from less.hyps[OF shorter asc2 ok2, of "foldl accf acc pg"]
    obtain s' where s':
      "paginate ?R (\<lambda>k. ProductsPage limit k flds) ?B sid' (foldl accf acc pg) s2
         = Some (Inr (foldl accf (foldl accf acc pg) (drop n rest)), s')"
      "world s' = map (fold patch_product (concat (map wr (drop n rest)))) (world s2)"
      "visited s' = visited s2 @ map pid (drop n rest)"
      "write_calls (calls s') = write_calls (calls s2) @ map ok_call (concat (map wr (drop n rest)))"
      "pages (calls s') = pages (calls s2) @ chunks (min limit cap) (drop n rest) @ [[]]"
      unfolding ab2 by blast
    have acc_all: "foldl accf (foldl accf acc pg) (drop n rest) = foldl accf acc rest"
      by (metis foldl_append rest_split)
    have W_all: "concat (map wr rest) = W1 @ concat (map wr (drop n rest))"
      unfolding W1_def by (metis concat_append map_append rest_split)
    have 1: "paginate ?R (\<lambda>k. ProductsPage limit k flds) ?B sid acc s = Some (Inr (foldl accf acc rest), s')"
      using rec s'(1) acc_all by simp
    have 2: "world s' = map (fold patch_product (concat (map wr rest))) (world s)"
      by (simp add: s'(2) w2 W_all comp_def)
    have 3: "visited s' = visited s @ map pid rest"
      using rest_split by (simp add: s'(3) s2_def s1_def) (metis map_append)
    have 4: "write_calls (calls s') = write_calls (calls s) @ map ok_call (concat (map wr rest))"
      by (simp add: s'(4) s2_def s1_def W_all)
    have 5: "pages (calls s') = pages (calls s) @ chunks (min limit cap) rest @ [[]]"
      using chunks_step[OF n False] by (simp add: s'(5) s2_def s1_def n_def[symmetric] pg_def)
    show ?thesis
      unfolding rest_def[symmetric] using 1 2 3 4 5 by blast
  qed
qed

section \<open>A traversal in which a write fails\<close>

lemma paginate_store_fail:
  assumes P: "0 < min limit cap"
    and nf: "\<And>k. fault (ProductsPage limit k flds) no_init = None"
    and wp: "wr p = W1 @ pt # W2"
    and okW1: "\<forall>x \<in> set W1. fault (path_of x) (put_init x) = None \<and> owned p x"
    and bad: "fault (path_of pt) (put_init pt) = Some rep" "failed rep"
    and asc: "ascending (world s)"
    and split: "above sid (world s) = r1 @ p # r2"
    and ok1: "writes_ok fault wr (world s) r1"
  shows "\<exists>s'. paginate (store_remote fault cap) (\<lambda>k. ProductsPage limit k flds)
               (via_writes (store_remote fault cap) wr accf) sid acc s
             = Some (Inl (error_of (path_of pt) (put_init pt) rep), s')
          \<and> world s' = map (fold patch_product (concat (map wr r1) @ W1)) (world s)
          \<and> visited s' = visited s @ map pid (r1 @ [p])
          \<and> write_calls (calls s') = write_calls (calls s) @ map ok_call (concat (map wr r1) @ W1)
                @ [Call (path_of pt) (put_init pt) rep]
          \<and> last (calls s') = Call (path_of pt) (put_init pt) rep"
  using asc split ok1
proof (induction "length r1" arbitrary: sid acc s r1 rule: less_induct)
  case less
  let ?R = "store_remote fault cap"
  let ?B = "via_writes ?R wr accf"
  let ?bad = "Call (path_of pt) (put_init pt) rep"
  define rest where "rest = above sid (world s)"
  define n where "n = min limit cap"
  define pg where "pg = take n rest"
  define s1 where "s1 = s\<lparr>calls := calls s @ [page_call limit sid flds pg]\<rparr>"
  have rest: "rest = r1 @ p # r2"
    unfolding rest_def by (rule less.prems(2))
  have n: "0 < n"
    using P by (simp add: n_def)
  have pg_ne: "pg \<noteq> []"
    using n by (simp add: pg_def rest)
  have step0: "paginate ?R (\<lambda>k. ProductsPage limit k flds) ?B sid acc s =
      (if pg = [] then Some (Inr acc, s1)
       else (case for_products ?B pg (sid, acc) s1 of
               (Inl e, s2) \<Rightarrow> Some (Inl e, s2)
             | (Inr (sid', acc'), s2) \<Rightarrow> paginate ?R (\<lambda>k. ProductsPage limit k flds) ?B sid' acc' s2))"
    unfolding pg_def rest_def n_def s1_def
    using paginate_store_step[of fault limit sid flds cap ?B acc s, OF nf] by (simp add: Let_def)
  have step: "paginate ?R (\<lambda>k. ProductsPage limit k flds) ?B sid acc s =
      (case for_products ?B pg (sid, acc) s1 of
         (Inl e, s2) \<Rightarrow> Some (Inl e, s2)
       | (Inr (sid', acc'), s2) \<Rightarrow> paginate ?R (\<lambda>k. ProductsPage limit k flds) ?B sid' acc' s2)"
    unfolding step0 using pg_ne by simp
  have in_world: "set rest \<subseteq> set (world s)"
    by (auto simp: rest_def above_def)
  have w1: "world s1 = world s"
    by (simp add: s1_def)
  have r1_world: "set r1 \<subseteq> set (world s)" and p_world: "p \<in> set (world s)"
    using in_world unfolding rest by auto
  have is_put: "write_calls [?bad] = [?bad]"
    by (simp add: write_calls_def is_write_def put_init_def)
  show ?case
  proof (cases "length r1 < n")
    case True
    then have pg: "pg = r1 @ p # take (n - Suc (length r1)) r2"
      by (simp add: pg_def rest take_Cons' )
    have ok: "\<forall>y \<in> set r1. \<forall>x \<in> set (wr y).
        fault (path_of x) (put_init x) = None \<and> (\<exists>q \<in> set (world s1). owned q x)"
      unfolding w1 using less.prems(3) r1_world unfolding writes_ok_def by blast
    have okp: "\<forall>x \<in> set W1. fault (path_of x) (put_init x) = None \<and> (\<exists>q \<in> set (world s1). owned q x)"
      unfolding w1 using okW1 p_world by blast
    define s2 where "s2 = s1\<lparr>world := map (fold patch_product (concat (map wr r1) @ W1)) (world s1),
        calls := calls s1 @ map ok_call (concat (map wr r1) @ W1) @ [?bad],
        visited := visited s1 @ map pid (r1 @ [p])\<rparr>"
    have "for_products ?B pg (sid, acc) s1 = (Inl (error_of (path_of pt) (put_init pt) rep), s2)"
      unfolding pg s2_def
      by (rule for_products_fail[OF ok wp okp bad])
    then have "paginate ?R (\<lambda>k. ProductsPage limit k flds) ?B sid acc s
        = Some (Inl (error_of (path_of pt) (put_init pt) rep), s2)"
      using step by simp
    moreover have "world s2 = map (fold patch_product (concat (map wr r1) @ W1)) (world s)"
      "visited s2 = visited s @ map pid (r1 @ [p])"
      "write_calls (calls s2) = write_calls (calls s) @ map ok_call (concat (map wr r1) @ W1) @ [?bad]"
      "last (calls s2) = ?bad"
      using is_put by (simp_all add: s2_def s1_def)
    ultimately show ?thesis
      by blast
  next
    case False
    then have pg: "pg = take n r1"
      by (simp add: pg_def rest)
    have dr: "drop n rest = drop n r1 @ p # r2"
      using False by (simp add: rest)
    have r1_split: "r1 = pg @ drop n r1"
      by (simp add: pg)
    have srt: "sorted_wrt (\<lambda>a b. pid a < pid b) rest"
      unfolding rest_def by (rule ascending_above[OF less.prems(1)])
    have pg_r1: "set pg \<subseteq> set r1"
      unfolding pg by (rule set_take_subset)
    have okpg: "\<forall>y \<in> set pg. \<forall>x \<in> set (wr y).
        fault (path_of x) (put_init x) = None \<and> (\<exists>q \<in> set (world s1). owned q x)"
      unfolding w1 using less.prems(3) pg_r1 r1_world unfolding writes_ok_def by blast
    have apart: "\<forall>y \<in> set (take n rest). \<forall>x \<in> set (wr y). \<forall>q \<in> set rest. pid q \<noteq> pid y \<longrightarrow> \<not> owned q x"
      using less.prems(3) pg_r1 in_world unfolding writes_ok_def pg_def[symmetric] by blast
    define Wp where "Wp = concat (map wr pg)"
    define s2 where "s2 = s1\<lparr>world := map (fold patch_product Wp) (world s1),
        calls := calls s1 @ map ok_call Wp, visited := visited s1 @ map pid pg\<rparr>"
    define sid' where "sid' = pid (last pg)"
    have fp: "for_products ?B pg (sid, acc) s1 = (Inr (sid', foldl accf acc pg), s2)"
      unfolding s2_def Wp_def sid'_def
      using for_products_ok[of pg wr fault s1 cap accf sid acc, OF okpg] pg_ne
      by (simp add: last_map)
    have rec: "paginate ?R (\<lambda>k. ProductsPage limit k flds) ?B sid acc s =
        paginate ?R (\<lambda>k. ProductsPage limit k flds) ?B sid' (foldl accf acc pg) s2"
      using step fp by simp
    have w2: "world s2 = map (fold patch_product Wp) (world s)"
      by (simp add: s2_def s1_def)
    have "map pid (world s2) = map pid (world s)"
      unfolding w2 by (rule map_pid_patched)
    then have asc2: "ascending (world s2)"
      using less.prems(1) by (simp only: ascending_def)
    have rest_ne: "above sid (world s) \<noteq> []"
      using rest by (simp add: rest_def)
    have "above sid' (world s) = drop n rest"
      unfolding sid'_def pg_def rest_def
      by (rule above_after_page[OF less.prems(1) n rest_ne])
    then have "above sid' (world s2) = map (fold patch_product Wp) (drop n rest)"
      by (simp add: w2 above_map)
    also have "\<dots> = drop n rest"
      unfolding Wp_def pg_def by (rule patched_rest[OF srt apart])
    finally have ab2: "above sid' (world s2) = drop n r1 @ p # r2"
      by (simp add: dr)
    have shorter: "length (drop n r1) < length r1"
      using False n by simp
    have "writes_ok fault wr (world s) (drop n r1)"
      using less.prems(3) by (rule writes_ok_subset) (rule set_drop_subset)
    then have ok2: "writes_ok fault wr (world s2) (drop n r1)"
      by (simp only: w2 writes_ok_patched)
    from less.hyps[OF shorter asc2 ab2 ok2, of "foldl accf acc pg"]
    obtain s' where s':
      "paginate ?R (\<lambda>k. ProductsPage limit k flds) ?B sid' (foldl accf acc pg) s2
         = Some (Inl (error_of (path_of pt) (put_init pt) rep), s')"
      "world s' = map (fold patch_product (concat (map wr (drop n r1)) @ W1)) (world s2)"
      "visited s' = visited s2 @ map pid (drop n r1 @ [p])"
      "write_calls (calls s') = write_calls (calls s2) @ map ok_call (concat (map wr (drop n r1)) @ W1) @ [?bad]"
      "last (calls s') = ?bad"
      by blast
    have W_all: "concat (map wr r1) = Wp @ concat (map wr (drop n r1))"
      unfolding Wp_def by (metis concat_append map_append r1_split)
    have 1: "paginate ?R (\<lambda>k. ProductsPage limit k flds) ?B sid acc s
        = Some (Inl (error_of (path_of pt) (put_init pt) rep), s')"
      using rec s'(1) by simp
    have 2: "world s' = map (fold patch_product (concat (map wr r1) @ W1)) (world s)"
      by (simp add: s'(2) w2 W_all comp_def)
    have "map pid r1 = map pid pg @ map pid (drop n r1)"
      by (metis map_append r1_split)
    then have 3: "visited s' = visited s @ map pid (r1 @ [p])"
      by (simp add: s'(3) s2_def s1_def)
    have 4: "write_calls (calls s') = write_calls (calls s) @ map ok_call (concat (map wr r1) @ W1) @ [?bad]"
      by (simp add: s'(4) s2_def s1_def W_all)
    show ?thesis
      using 1 2 3 4 s'(5) by blast
  qed
qed

section \<open>Accumulators, patches and pages\<close>

definition positive_ids :: "product list \<Rightarrow> bool" where
  "positive_ids cat \<longleftrightarrow> (\<forall>p \<in> set cat. 0 < pid p)"

lemma above_all: "positive_ids cat \<Longrightarrow> above 0 cat = cat"
  by (simp add: positive_ids_def above_def)

lemma no_fault_page: "no_fault (ProductsPage limit k flds) no_init = None"
  by (simp add: no_fault_def)

lemma description_writes_ok: "writes_ok no_fault (description_writes ap) cat ps"
  by (simp add: writes_ok_def description_writes_def no_fault_def owned_def)

lemma hide_writes_ok: "writes_ok no_fault hide_writes cat ps"
  by (simp add: writes_ok_def hide_writes_def no_fault_def owned_def)

lemma ascending_distinct: "ascending cat \<Longrightarrow> distinct (map pid cat)"
  unfolding ascending_def by (simp add: strict_sorted_iff)

lemma start_simps [simp]:
  "world (start cat) = cat" "calls (start cat) = []" "visited (start cat) = []"
  by (simp_all add: start_def)

lemma chunks_nonempty:
  assumes "0 < n"
  shows "\<forall>pg \<in> set (chunks n xs). pg \<noteq> []"
proof -
  have "take n (drop (i * n) xs) \<noteq> []" if "i < (length xs + n - 1) div n" for i
  proof -
    have "i * n < length xs"
    proof (rule ccontr)
      assume "\<not> i * n < length xs"
      then have "length xs + n - 1 < (i + 1) * n"
        using assms by simp
      then have "(length xs + n - 1) div n < i + 1"
        using assms by (simp add: less_mult_imp_div_less)
      with that show False by simp
    qed
    with assms show ?thesis by simp
  qed
  then show ?thesis
    by (auto simp: chunks_def)
qed

lemma concat_chunks:
  assumes "0 < n"
  shows "concat (chunks n xs) = xs"
proof (induction "length xs" arbitrary: xs rule: less_induct)
  case less
  show ?case
  proof (cases "xs = []")
    case True
    then show ?thesis by simp
  next
    case False
    then have "length (drop n xs) < length xs"
      using assms by simp
    from less.hyps[OF this] show ?thesis
      by (simp add: chunks_step[OF assms False])
  qed
qed

lemma foldl_description_acc_apply:
  "foldl (description_acc True) (u, pv) ps = (u + length (filter (\<lambda>p. \<not> same_description p) ps), pv)"
  by (induction ps arbitrary: u) (simp_all add: description_acc_def)

lemma foldl_description_acc_preview:
  "foldl (description_acc False) (u, pv) ps
     = (u, pv @ map (\<lambda>p. (pid p, title p)) (filter (\<lambda>p. \<not> same_description p) ps))"
  by (induction ps arbitrary: pv) (simp_all add: description_acc_def)

lemma foldl_hide_acc:
  "foldl hide_acc h ps = h + length (filter (\<lambda>p. allZero p \<and> status p \<noteq> js ''draft'') ps)"
  by (induction ps arbitrary: h) (simp_all add: hide_acc_def)

lemma concat_description_writes_apply:
  "concat (map (description_writes True) ps)
     = map (\<lambda>p. BodyHtmlPatch (pid p) (buildDescription p)) (filter (\<lambda>p. \<not> same_description p) ps)"
  by (induction ps) (simp_all add: description_writes_def)

lemma concat_description_writes_preview: "concat (map (description_writes False) ps) = []"
  by (induction ps) (simp_all add: description_writes_def)

lemma concat_hide_writes:
  "concat (map hide_writes ps)
     = map (\<lambda>p. StatusPatch (pid p) (js ''draft'')) (filter (\<lambda>p. allZero p \<and> status p \<noteq> js ''draft'') ps)"
  by (induction ps) (simp_all add: hide_writes_def)

lemma patched_pointwise:
  assumes "distinct (map pid cat)" "set ps \<subseteq> set cat" "distinct ps"
    and own: "\<forall>p \<in> set ps. \<forall>pt \<in> set (wr p). \<forall>r \<in> set cat. pid r \<noteq> pid p \<longrightarrow> \<not> owned r pt"
    and q: "q \<in> set cat"
  shows "fold patch_product (concat (map wr ps)) q = (if q \<in> set ps then fold patch_product (wr q) q else q)"
proof -
  have inj: "pid a \<noteq> pid b" if "a \<in> set cat" "b \<in> set cat" "a \<noteq> b" for a b
    using assms(1) that by (meson distinct_map inj_on_def)
  have other: "fold patch_product (concat (map wr xs)) (fold patch_product V q) = fold patch_product V q"
    if "set xs \<subseteq> set ps" "\<forall>x \<in> set xs. pid x \<noteq> pid q" for xs V
  proof (rule fold_patch_other, rule ballI)
    fix pt assume "pt \<in> set (concat (map wr xs))"
    then obtain p where "p \<in> set xs" "pt \<in> set (wr p)"
      by auto
    then have "\<not> owned q pt"
      using that own q by (metis subsetD)
    then show "\<not> owned (fold patch_product V q) pt"
      by simp
  qed
  show ?thesis
  proof (cases "q \<in> set ps")
    case False
    then have "\<forall>x \<in> set ps. pid x \<noteq> pid q"
      using inj q assms(2) by blast
    then show ?thesis
      using False other[of ps "[]"] by simp
  next
    case True
    then obtain xs ys where ps: "ps = xs @ q # ys"
      by (meson split_list)
    then have nq: "q \<notin> set xs" "q \<notin> set ys"
      using assms(3) by auto
    have x: "\<forall>x \<in> set xs. pid x \<noteq> pid q" and y: "\<forall>x \<in> set ys. pid x \<noteq> pid q"
      using inj[OF _ q] assms(2) nq ps by auto
    have sub: "set xs \<subseteq> set ps" "set ys \<subseteq> set ps"
      by (auto simp: ps)
    have 1: "fold patch_product (concat (map wr xs)) q = q"
      using other[OF sub(1) x, of "[]"] by simp
    have 2: "fold patch_product (concat (map wr ys)) (fold patch_product (wr q) q) = fold patch_product (wr q) q"
      by (rule other[OF sub(2) y])
    show ?thesis
      using True by (simp add: ps 1 2)
  qed
qed

lemma same_after_write:
  "same_description (q\<lparr>body_html := Some (buildDescription q)\<rparr>)"
proof -
  have "buildDescription (q\<lparr>body_html := Some (buildDescription q)\<rparr>) = buildDescription q"
    by (simp add: buildDescription_def)
  then show ?thesis
    by (simp add: same_description_def or_default_def buildDescription_nonempty buildDescription_trimmed)
qed

lemma description_patch_effect:
  "fold patch_product (description_writes True q) q
     = (if same_description q then q else q\<lparr>body_html := Some (buildDescription q)\<rparr>)"
  by (simp add: description_writes_def)

subsection \<open>A sample catalog\<close>

definition plain :: "nat \<Rightarrow> string \<Rightarrow> product" where
  "plain i t = mk_product i t None [] ''active''"

definition two_products :: "product list" where
  "two_products = [plain 1 ''Bowl'', plain 3 ''Leash'']"

definition in_stock :: product where
  "in_stock = mk_product 2 ''Mat'' None [mk_variant 21 ''5.00'' (Some 5) (JBool True)] ''active''"

definition gone :: product where
  "gone = mk_product 3 ''Leash'' None [mk_variant 31 ''9.99'' (Some 0) (JBool True)] ''active''"

definition flaky :: "path \<Rightarrow> init \<Rightarrow> reply option" where
  "flaky pa ini =
     (if pa = ProductPath 3 \<or> pa = VariantPath 31 then Some (Rejected (js ''ECONNRESET'')) else None)"

lemma no_body_needs:
  assumes "or_default (body_html p) [] = []"
  shows "\<not> same_description p"
proof -
  have "description_text p = 60 # tl (description_text p)"
    by (simp add: description_text_def js_def)
  then have "take 160 (buildDescription p) = 60 # take 159 (tl (description_text p))"
    unfolding buildDescription_unfold by (metis numeral_nat(7) take_Suc_Cons eval_nat_numeral(3) Suc_numeral semiring_norm(5) semiring_norm(8))
  moreover have "\<not> isspace 60"
    by (simp add: isspace_def)
  ultimately have "replace_ws (take 160 (buildDescription p)) \<noteq> []"
    by simp
  then show ?thesis
    by (simp add: same_description_def slice0_def assms trim_def)
qed

lemma plain_simps: "pid (plain i t) = i" "title (plain i t) = js t"
  by (simp_all add: plain_def mk_product_def)

lemma plain_needs: "\<not> same_description (plain i t)"
  by (rule no_body_needs) (simp add: plain_def mk_product_def or_default_def)

lemma two_products_ok: "ascending two_products" "positive_ids two_products"
  by (simp_all add: ascending_def positive_ids_def two_products_def plain_def mk_product_def)

lemma two_products_safe: "safe_ids two_products" "variants_apart two_products"
  by (simp_all add: safe_ids_def variants_apart_def two_products_def plain_def mk_product_def variants_of_def)

lemma hide_examples:
  "allZero sold_out \<and> status sold_out \<noteq> js ''draft''" "\<not> allZero in_stock"
  "allZero gone \<and> status gone \<noteq> js ''draft''"
  "pid sold_out = 1" "pid in_stock = 2" "pid gone = 3"
  by (simp_all add: allZero_def zero_and_tracked_def sold_out_def in_stock_def gone_def
      mk_product_def mk_variant_def js_def)

section \<open>When the loop returns\<close>

text \<open>
  For any remote and any loop body: a page request answered with no products ends the
  loop with the accumulator as the result, and a loop that returns a result has just
  received such a page.
\<close>

lemma shopify_Inr:
  assumes "shopify remote pa ini s = (Inr d, s1)"
  shows "\<exists>st txt. calls s1 = calls s @ [Call pa ini (Response st txt (Some d))]"
  using assms
  by (auto simp: shopify_def Let_def split: prod.splits reply.splits if_splits option.splits)

lemma page_of_empty:
  assumes "(case products d of None \<Rightarrow> [] | Some ps \<Rightarrow> ps) = []"
  shows "page_of (Call pa ini (Response st txt (Some d))) = []"
  using assms by (cases d; cases "products d") auto

lemma empty_page_ends_run:
  assumes "shopify remote (ProductsPage limit sinceId flds) no_init s = (Inr d, s1)"
    and "(case products d of None \<Rightarrow> [] | Some ps \<Rightarrow> ps) = []"
  shows "paginate remote (\<lambda>k. ProductsPage limit k flds) body sinceId acc s = Some (Inr acc, s1)"
  by (subst paginate.simps) (simp add: assms)

definition ended_by_empty_page :: "(error + 'a) \<times> 'w net \<Rightarrow> bool" where
  "ended_by_empty_page y =
     (case y of
        (Inl e, s') \<Rightarrow> True
      | (Inr a, s') \<Rightarrow> calls s' \<noteq> [] \<and> is_page (last (calls s')) \<and> page_of (last (calls s')) = [])"

lemma result_only_after_empty_page:
  assumes "paginate remote (\<lambda>k. ProductsPage limit k flds) body sinceId acc s = Some (Inr a, s')"
  shows "calls s' \<noteq> [] \<and> is_page (last (calls s')) \<and> page_of (last (calls s')) = []"
proof -
  have "(\<lambda>k. ProductsPage limit k flds) = (\<lambda>k. ProductsPage limit k flds) \<longrightarrow> ended_by_empty_page (Inr a, s')"
  proof (rule paginate.raw_induct[where P = "\<lambda>remote pp body sinceId acc s y.
      pp = (\<lambda>k. ProductsPage limit k flds) \<longrightarrow> ended_by_empty_page y", OF _ assms])
    fix pag remote page_path body sinceId acc s y
    assume IH: "\<And>r pp b sid ac st y. pag r pp b sid ac st = Some y \<Longrightarrow>
        pp = (\<lambda>k. ProductsPage limit k flds) \<longrightarrow> ended_by_empty_page y"
      and eq: "(case shopify remote (page_path sinceId) no_init s of
          (Inl e, s1) \<Rightarrow> Some (Inl e, s1)
        | (Inr data, s1) \<Rightarrow>
            (case (case products data of None \<Rightarrow> [] | Some ps \<Rightarrow> ps) of
               [] \<Rightarrow> Some (Inr acc, s1)
             | p # ps \<Rightarrow>
                 (case for_products body (p # ps) (sinceId, acc) s1 of
                    (Inl e, s2) \<Rightarrow> Some (Inl e, s2)
                  | (Inr (sinceId', acc'), s2) \<Rightarrow> pag remote page_path body sinceId' acc' s2))) = Some y"
    show "page_path = (\<lambda>k. ProductsPage limit k flds) \<longrightarrow> ended_by_empty_page y"
    proof
      assume pp: "page_path = (\<lambda>k. ProductsPage limit k flds)"
      obtain r s1 where sh: "shopify remote (page_path sinceId) no_init s = (r, s1)"
        by (cases "shopify remote (page_path sinceId) no_init s")
      show "ended_by_empty_page y"
      proof (cases r)
        case (Inl e)
        with eq sh show ?thesis
          by (auto simp: ended_by_empty_page_def)
      next
        case (Inr d)
        from shopify_Inr[OF sh[unfolded Inr]] obtain st tx where
          c: "calls s1 = calls s @ [Call (page_path sinceId) no_init (Response st tx (Some d))]"
          by blast
        show ?thesis
        proof (cases "(case products d of None \<Rightarrow> [] | Some ps \<Rightarrow> ps)")
          case Nil
          with eq sh Inr have "y = (Inr acc, s1)"
            by simp
          then show ?thesis
            using c page_of_empty[OF Nil] by (simp add: pp ended_by_empty_page_def)
        next
          case (Cons p ps)
          obtain r2 s2 where fp: "for_products body (p # ps) (sinceId, acc) s1 = (r2, s2)"
            by (cases "for_products body (p # ps) (sinceId, acc) s1")
          show ?thesis
          proof (cases r2)
            case (Inl e)
            with eq sh Inr Cons fp show ?thesis
              by (auto simp: ended_by_empty_page_def)
          next
            case r2: (Inr x)
            obtain sid' acc' where x: "x = (sid', acc')"
              by (cases x)
            from eq sh Inr Cons fp r2 x have "pag remote page_path body sid' acc' s2 = Some y"
              by simp
            from IH[OF this] pp show ?thesis
              by simp
          qed
        qed
      qed
    qed
  qed
  then show ?thesis
    by (simp add: ended_by_empty_page_def)
qed

lemma result_needs_empty_page:
  assumes "updateAllDescriptions remote ap s = Some (Inr r, s')
         \<or> hideOutOfStock remote s = Some (Inr r, s')
         \<or> simpleReprice remote percent s = Some (Inr r, s')"
  shows "calls s' \<noteq> [] \<and> is_page (last (calls s')) \<and> page_of (last (calls s')) = []"
  using assms
proof (elim disjE)
  assume "updateAllDescriptions remote ap s = Some (Inr r, s')"
  then obtain a where "paginate remote (\<lambda>sinceId. ProductsPage 250 sinceId None)
      (update_product remote ap) 0 (0, []) s = Some (Inr a, s')"
    by (auto simp: updateAllDescriptions_def split: option.splits prod.splits sum.splits)
  then show ?thesis
    by (rule result_only_after_empty_page)
next
  assume "hideOutOfStock remote s = Some (Inr r, s')"
  then obtain a where "paginate remote
      (\<lambda>sinceId. ProductsPage 250 sinceId (Some (js ''id,title,variants,status'')))
      (hide_product remote) 0 0 s = Some (Inr a, s')"
    by (auto simp: hideOutOfStock_def split: option.splits prod.splits sum.splits)
  then show ?thesis
    by (rule result_only_after_empty_page)
next
  assume "simpleReprice remote percent s = Some (Inr r, s')"
  then obtain a where "paginate remote
      (\<lambda>sinceId. ProductsPage 100 sinceId (Some (js ''id,title,variants'')))
      (reprice_product remote (factor percent)) 0 0 s = Some (Inr a, s')"
    by (auto simp: simpleReprice_def split: option.splits prod.splits sum.splits)
  then show ?thesis
    by (rule result_only_after_empty_page)
qed

section \<open>Rounding to a double\<close>

lemma ilog2_bounds:
  assumes "0 < v"
  shows "2 powi ilog2 v \<le> v \<and> v < 2 powi (ilog2 v + 1)"
proof (cases "1 \<le> v")
  case True
  define n where "n = \<lfloor>v\<rfloor>"
  have n: "0 < n"
    using True unfolding n_def by simp
  define k where "k = bitlen n - 1"
  have k0: "0 \<le> k"
    using n bitlen_bounds[OF n] unfolding k_def by (simp add: bitlen_alt_def)
  have il: "ilog2 v = k"
    using True by (simp add: ilog2_def n_def k_def)
  have b: "2 ^ nat k \<le> n" "n < 2 ^ nat (k + 1)"
    using bitlen_bounds[OF n] unfolding k_def by simp_all
  have pk: "(2::rat) powi k = 2 ^ nat k" "(2::rat) powi (k + 1) = 2 ^ nat (k + 1)"
    using k0 by (simp_all add: power_int_def)
  have "(2::rat) ^ nat k \<le> of_int n"
    using b(1) by (metis of_int_le_iff of_int_numeral of_int_power)
  moreover have "of_int n \<le> v"
    unfolding n_def by simp
  ultimately have 1: "2 powi k \<le> v"
    unfolding pk by (rule order_trans)
  have "rat_of_int (n + 1) \<le> 2 ^ nat (k + 1)"
    using b(2) by (metis of_int_le_iff of_int_numeral of_int_power zless_imp_add1_zle)
  moreover have "v < of_int (n + 1)"
    unfolding n_def by linarith
  ultimately have 2: "v < 2 powi (k + 1)"
    unfolding pk by (rule less_le_trans[rotated])
  show ?thesis
    using 1 2 il by simp
next
  case False
  define w where "w = 1 / v"
  have w: "1 < w"
    using False assms by (simp add: w_def)
  define c where "c = \<lceil>w\<rceil> - 1"
  have c: "0 < c"
    using w unfolding c_def by linarith
  define b where "b = bitlen c"
  have bb: "2 ^ nat (b - 1) \<le> c" "c < 2 ^ nat b"
    using bitlen_bounds[OF c] unfolding b_def by simp_all
  have b1: "1 \<le> b"
    using c unfolding b_def by (simp add: bitlen_alt_def)
  have il: "ilog2 v = - b"
    using False by (simp add: ilog2_def w_def c_def b_def)
  have "w \<le> of_int (c + 1)"
    unfolding c_def by simp
  moreover have "rat_of_int (c + 1) \<le> 2 ^ nat b"
    using bb(2) by (metis of_int_le_iff of_int_numeral of_int_power zless_imp_add1_zle)
  ultimately have wu: "w \<le> 2 ^ nat b"
    by (rule order_trans)
  have "(2::rat) ^ nat (b - 1) \<le> of_int c"
    using bb(1) by (metis of_int_le_iff of_int_numeral of_int_power)
  moreover have "of_int c < w"
    unfolding c_def by linarith
  ultimately have wl: "2 ^ nat (b - 1) < w"
    by (rule le_less_trans)
  have p1: "(2::rat) powi (- b) = 1 / 2 ^ nat b"
    using b1 by (simp add: power_int_def field_simps)
  have p2: "(2::rat) powi (- b + 1) = 1 / 2 ^ nat (b - 1)"
    using b1 by (simp add: power_int_def field_simps nat_diff_distrib)
  have 1: "2 powi (- b) \<le> v"
    unfolding p1 using wu assms by (simp add: w_def field_simps)
  have 2: "v < 2 powi (- b + 1)"
    unfolding p2 using wl assms by (simp add: w_def field_simps)
  show ?thesis
    using 1 2 il by simp
qed

lemma ilog2_less:
  assumes "0 < v" "v < 2 powi k"
  shows "ilog2 v < k"
proof (rule ccontr)
  assume "\<not> ilog2 v < k"
  then have "(2::rat) powi k \<le> 2 powi ilog2 v"
    by (intro power_int_increasing) simp_all
  with ilog2_bounds[OF assms(1)] assms(2) show False
    by simp
qed

lemma ilog2_ge:
  assumes "2 powi k \<le> v"
  shows "k \<le> ilog2 v"
proof (rule ccontr)
  assume "\<not> k \<le> ilog2 v"
  then have "(2::rat) powi (ilog2 v + 1) \<le> 2 powi k"
    by (intro power_int_increasing) simp_all
  moreover have "0 < v"
    using assms by (meson less_le_trans zero_less_numeral zero_less_power_int)
  ultimately show False
    using ilog2_bounds[of v] assms by simp
qed

lemma round_half_even_int [simp]: "round_half_even (of_int n) = n"
  by (simp add: round_half_even_def)

lemma round_half_even_le:
  assumes "v \<le> of_int N"
  shows "round_half_even v \<le> N"
proof (cases "v = of_int N")
  case True
  then show ?thesis by simp
next
  case False
  with assms have "v < of_int N"
    by simp
  then have "\<lfloor>v\<rfloor> < N"
    by (simp add: floor_less_iff)
  then show ?thesis
    by (auto simp: round_half_even_def Let_def)
qed

lemma round_half_even_ge:
  assumes "of_int N \<le> v"
  shows "N \<le> round_half_even v"
proof -
  have "N \<le> \<lfloor>v\<rfloor>"
    using assms by (simp add: le_floor_iff)
  then show ?thesis
    by (auto simp: round_half_even_def Let_def)
qed

lemma powi_split: "(2::rat) powi (a + b) = 2 powi a * 2 powi b"
  by (simp add: power_int_add)

lemma powi_53: "(2::rat) powi (e + 1) = 2 ^ 53 * 2 powi (e - 52)"
proof -
  have "e + 1 = 53 + (e - 52)"
    by simp
  then have "(2::rat) powi (e + 1) = 2 powi (53 + (e - 52))"
    by (rule arg_cong)
  then show ?thesis
    unfolding powi_split by simp
qed

lemma powi_52: "(2::rat) powi e = 2 ^ 52 * 2 powi (e - 52)"
proof -
  have "e = 52 + (e - 52)"
    by simp
  then have "(2::rat) powi e = 2 powi (52 + (e - 52))"
    by (rule arg_cong)
  then show ?thesis
    unfolding powi_split by simp
qed

lemma powi_pos [simp]: "0 < (2::rat) powi k"
  by (simp add: zero_less_power_int)

lemma mantissa_bounds:
  assumes "0 < a"
  defines "e \<equiv> max (ilog2 a) (- 1022)"
  defines "M \<equiv> round_half_even (a / 2 powi (e - 52))"
  shows "0 \<le> M" "M \<le> 2 ^ 53" "2 ^ 52 \<le> M \<or> e = - 1022"
proof -
  let ?u = "(2::rat) powi (e - 52)"
  have "0 \<le> a / ?u"
    using assms(1) by simp
  then have "rat_of_int 0 \<le> a / ?u"
    by simp
  then show "0 \<le> M"
    unfolding M_def by (rule round_half_even_ge)
  have "a < 2 powi (ilog2 a + 1)"
    using ilog2_bounds[OF assms(1)] by simp
  also have "\<dots> \<le> 2 powi (e + 1)"
    unfolding e_def by (intro power_int_increasing) simp_all
  also have "\<dots> = 2 ^ 53 * ?u"
    by (rule powi_53)
  finally have "a / ?u \<le> 2 ^ 53"
    by (simp add: field_simps)
  then have "a / ?u \<le> rat_of_int (2 ^ 53)"
    by simp
  then show "M \<le> 2 ^ 53"
    unfolding M_def by (rule round_half_even_le)
  show "2 ^ 52 \<le> M \<or> e = - 1022"
  proof (cases "e = - 1022")
    case False
    then have "e = ilog2 a"
      unfolding e_def by simp
    then have "2 powi e \<le> a"
      using ilog2_bounds[OF assms(1)] by simp
    moreover have "(2::rat) powi e = 2 ^ 52 * ?u"
      by (rule powi_52)
    ultimately have "2 ^ 52 \<le> a / ?u"
      by (simp add: field_simps)
    then have "rat_of_int (2 ^ 52) \<le> a / ?u"
      by simp
    then have "2 ^ 52 \<le> M"
      unfolding M_def by (rule round_half_even_ge)
    then show ?thesis ..
  qed simp
qed

lemma canonical_fixed:
  assumes "0 < M" "M \<le> 2 ^ 53" "- 1022 \<le> e" "2 ^ 52 \<le> M \<or> e = - 1022"
  defines "R \<equiv> rat_of_int M * 2 powi (e - 52)"
  defines "u' \<equiv> (2::rat) powi (max (ilog2 R) (- 1022) - 52)"
  shows "of_int (round_half_even (R / u')) * u' = R"
proof (cases "M = 2 ^ 53")
  case True
  have R: "R = 2 powi (e + 1)"
    unfolding R_def True powi_53 by simp
  have "e + 1 \<le> ilog2 R"
    by (rule ilog2_ge) (simp add: R)
  moreover have "ilog2 R < e + 2"
    by (rule ilog2_less) (simp_all add: R power_int_strict_increasing)
  ultimately have "ilog2 R = e + 1"
    by simp
  then have u': "u' = 2 powi (e - 51)"
    unfolding u'_def using assms(3) by (simp add: max_def)
  have "R = 2 ^ 52 * u'"
    unfolding R u' using powi_52[of "e + 1"] by simp
  then have "R / u' = rat_of_int (2 ^ 52)"
    unfolding u' by simp
  then show ?thesis
    using \<open>R = 2 ^ 52 * u'\<close> by (simp only: round_half_even_int) simp
next
  case False
  with assms(2) have "M < 2 ^ 53"
    by simp
  then have "rat_of_int M < 2 ^ 53"
    by (metis of_int_less_iff of_int_numeral of_int_power)
  then have "R < 2 ^ 53 * 2 powi (e - 52)"
    unfolding R_def by simp
  also have "\<dots> = 2 powi (e + 1)"
    by (simp only: powi_53)
  finally have up: "R < 2 powi (e + 1)" .
  have Rpos: "0 < R"
    unfolding R_def using assms(1) by simp
  have lt: "ilog2 R < e + 1"
    using Rpos up by (rule ilog2_less)
  have "max (ilog2 R) (- 1022) = e"
  proof (cases "2 ^ 52 \<le> M")
    case True
    then have "(2::rat) ^ 52 \<le> of_int M"
      by (metis of_int_le_iff of_int_numeral of_int_power)
    then have "2 ^ 52 * 2 powi (e - 52) \<le> R"
      unfolding R_def by simp
    moreover have "(2::rat) ^ 52 * 2 powi (e - 52) = 2 powi e"
      by (simp only: powi_52[symmetric])
    ultimately have "e \<le> ilog2 R"
      by (intro ilog2_ge) simp
    with lt assms(3) show ?thesis
      by simp
  next
    case False
    with assms(4) have "e = - 1022"
      by simp
    with lt show ?thesis
      by simp
  qed
  then have u': "u' = 2 powi (e - 52)"
    unfolding u'_def by simp
  have "R / u' = rat_of_int M"
    unfolding u' R_def by simp
  then show ?thesis
    unfolding u' R_def by (simp only: round_half_even_int)
qed

lemma round_double_fixed:
  assumes "round_double q = Finite r"
  shows "round_double r = Finite r"
proof (cases "q = 0")
  case True
  with assms show ?thesis
    by (simp add: round_double_def)
next
  case False
  define a where "a = \<bar>q\<bar>"
  define e where "e = max (ilog2 a) (- 1022)"
  define M where "M = round_half_even (a / 2 powi (e - 52))"
  define R where "R = rat_of_int M * 2 powi (e - 52)"
  have a: "0 < a"
    using False by (simp add: a_def)
  have rd: "round_double q = (if 2 ^ 1024 \<le> R then (if q < 0 then NegInfinity else PosInfinity)
      else Finite (if q < 0 then - R else R))"
    using False by (simp add: round_double_def Let_def a_def e_def M_def R_def)
  with assms have small: "R < 2 ^ 1024" and r: "r = (if q < 0 then - R else R)"
    by (auto split: if_splits)
  have M: "0 \<le> M" "M \<le> 2 ^ 53" "2 ^ 52 \<le> M \<or> e = - 1022"
    using mantissa_bounds[OF a] unfolding e_def M_def by simp_all
  show ?thesis
  proof (cases "M = 0")
    case True
    then have "r = 0"
      by (simp add: r R_def)
    then show ?thesis
      by (simp add: round_double_def)
  next
    case Mne: False
    with M(1) have Mpos: "0 < M"
      by simp
    have Rpos: "0 < R"
      unfolding R_def using Mpos by simp
    have e: "- 1022 \<le> e"
      unfolding e_def by simp
    define u' where "u' = (2::rat) powi (max (ilog2 R) (- 1022) - 52)"
    have fixd: "of_int (round_half_even (R / u')) * u' = R"
      unfolding u'_def R_def by (rule canonical_fixed[OF Mpos M(2) e M(3)])
    have abs_r: "\<bar>r\<bar> = R" and r0: "r \<noteq> 0" and sgn: "r < 0 \<longleftrightarrow> q < 0"
      using Rpos by (simp_all add: r)
    have "round_double r = (if 2 ^ 1024 \<le> R then (if r < 0 then NegInfinity else PosInfinity)
        else Finite (if r < 0 then - R else R))"
      using r0 fixd by (simp add: round_double_def Let_def abs_r u'_def)
    then show ?thesis
      using small sgn by (simp add: r)
  qed
qed

text \<open>
  Every natural number up to \<open>2\<^sup>5\<^sup>3\<close> is a double, so an identifier in that range is read
  without loss; the next one is not.
\<close>

lemma round_double_exact:
  assumes "0 < a" "of_int (round_half_even (a / 2 powi (max (ilog2 a) (- 1022) - 52)))
      * 2 powi (max (ilog2 a) (- 1022) - 52) = a" "a < 2 ^ 1024"
  shows "round_double a = Finite a"
  using assms by (simp add: round_double_def Let_def)

lemma safe_integer_is_double:
  assumes "n \<le> 2 ^ 53"
  shows "round_double (of_nat n) = Finite (of_nat n)"
proof (cases "n = 0")
  case True
  then show ?thesis
    by (simp add: round_double_def)
next
  case False
  define a :: rat where "a = of_nat n"
  have pos: "0 < a" and one: "1 \<le> a"
    using False by (simp_all add: a_def)
  have "a \<le> of_nat (2 ^ 53)"
    unfolding a_def using assms by (simp only: of_nat_le_iff)
  then have le: "a \<le> 2 ^ 53"
    by simp
  define e where "e = ilog2 a"
  have "(2::rat) powi 0 \<le> a"
    using one by simp
  then have e0: "0 \<le> e"
    unfolding e_def by (rule ilog2_ge)
  have "a < 2 powi 54"
    using le by simp
  with pos have e54: "e < 54"
    unfolding e_def by (rule ilog2_less)
  have m: "max e (- 1022) = e"
    using e0 by simp
  have small: "a < 2 ^ 1024"
    using le by (rule le_less_trans) simp
  have "of_int (round_half_even (a / 2 powi (e - 52))) * 2 powi (e - 52) = a"
  proof (cases "e \<le> 52")
    case True
    define k where "k = nat (52 - e)"
    have u: "(2::rat) powi (e - 52) = 1 / 2 ^ k"
      using True by (simp add: power_int_def k_def field_simps)
    have "a / (1 / 2 ^ k) = of_int (int n * 2 ^ k)"
      by (simp add: a_def)
    then have "round_half_even (a / 2 powi (e - 52)) = int n * 2 ^ k"
      unfolding u by (simp only: round_half_even_int)
    then show ?thesis
      unfolding u by (simp add: a_def)
  next
    case False
    with e54 have e: "e = 53"
      by simp
    have "2 powi 53 \<le> a"
      using ilog2_bounds[OF pos] unfolding e_def[symmetric] e by simp
    with le have a: "a = 2 ^ 53"
      by simp
    have u: "(2::rat) powi (e - 52) = 2"
      by (simp add: e)
    have "a / 2 = of_int (2 ^ 52)"
      by (simp add: a)
    then have "round_half_even (a / 2 powi (e - 52)) = 2 ^ 52"
      unfolding u by (simp only: round_half_even_int)
    then show ?thesis
      unfolding u by (simp add: a)
  qed
  moreover have "max (ilog2 a) (- 1022) = e"
    using m by (simp only: e_def)
  ultimately have "round_double a = Finite a"
    using pos small by (intro round_double_exact) simp_all
  then show ?thesis
    by (simp add: a_def)
qed

lemma beyond_safe_integers: "round_double 9007199254740993 = Finite 9007199254740992"
  by code_simp

section \<open>Repricing\<close>

text \<open>
  \<open>reprice_patches fac vs\<close> are the writes the variant loop issues on \<open>vs\<close>, in order: one
  for each variant whose price parses as a finite number and whose new price, printed with
  two decimals, differs from the stored string (\<open>reprice_variants_via\<close>). A price string
  is \<open>two_decimal\<close> when it parses as a finite number and is the two-decimal rendering of
  that number.
\<close>

definition reprice_patches :: "number \<Rightarrow> variant list \<Rightarrow> patch list" where
  "reprice_patches fac vs =
     map (\<lambda>v. PricePatch (vid v) (toFixed 2 (num_times (parseFloat (price v)) fac)))
       (filter (\<lambda>v. isFinite (parseFloat (price v))
                    \<and> toFixed 2 (num_times (parseFloat (price v)) fac) \<noteq> price v) vs)"

definition two_decimal :: "jsstring \<Rightarrow> bool" where
  "two_decimal s = (case parseFloat s of Finite q \<Rightarrow> toFixed 2 (Finite q) = s | _ \<Rightarrow> False)"

lemma reprice_variants_via:
  "reprice_variants remote fac vs changed s =
     (case do_writes remote (reprice_patches fac vs) s of
        (Inl e, s') \<Rightarrow> (Inl e, s')
      | (Inr u, s') \<Rightarrow> (Inr (changed + length (reprice_patches fac vs)), s'))"
proof (induction vs arbitrary: changed s)
  case Nil
  then show ?case by (simp add: reprice_patches_def)
next
  case (Cons v vs)
  show ?case
  proof (cases "isFinite (parseFloat (price v))
      \<and> toFixed 2 (num_times (parseFloat (price v)) fac) \<noteq> price v")
    case True
    then have p: "reprice_patches fac (v # vs)
        = PricePatch (vid v) (toFixed 2 (num_times (parseFloat (price v)) fac)) # reprice_patches fac vs"
      by (simp add: reprice_patches_def)
    show ?thesis
      using True unfolding p
      by (simp add: Cons.IH Let_def split: prod.splits sum.splits)
  next
    case False
    then have p: "reprice_patches fac (v # vs) = reprice_patches fac vs"
      by (simp add: reprice_patches_def)
    show ?thesis
      using False unfolding p by (auto simp: Cons.IH Let_def)
  qed
qed

lemma reprice_product_via:
  "reprice_product remote fac = via_writes remote (\<lambda>p. reprice_patches fac (variants_of p))
     (\<lambda>changed p. changed + length (reprice_patches fac (variants_of p)))"
  by (intro ext) (simp add: reprice_product_def via_writes_def reprice_variants_via variants_of_def)

lemma parseFloat_rounded:
  assumes "parseFloat s = Finite q"
  shows "\<exists>v. round_double v = Finite q"
  using assms by (auto simp: parseFloat_def Let_def split: if_splits option.splits)

lemma factor_zero: "factor (Finite 0) = Finite 1"
  by code_simp

lemma times_one:
  assumes "parseFloat s = Finite q"
  shows "num_times (parseFloat s) (factor (Finite 0)) = Finite q"
proof -
  from parseFloat_rounded[OF assms] obtain v where "round_double v = Finite q" ..
  then have "round_double q = Finite q"
    by (rule round_double_fixed)
  then show ?thesis
    by (simp add: assms factor_zero)
qed

lemma two_decimal_no_patch:
  assumes "\<forall>v \<in> set vs. two_decimal (price v)"
  shows "reprice_patches (factor (Finite 0)) vs = []"
proof -
  have "toFixed 2 (num_times (parseFloat (price v)) (factor (Finite 0))) = price v" if "v \<in> set vs" for v
  proof -
    from assms that have "two_decimal (price v)" ..
    then obtain q where q: "parseFloat (price v) = Finite q" "toFixed 2 (Finite q) = price v"
      by (auto simp: two_decimal_def split: number.splits)
    show ?thesis
      unfolding times_one[OF q(1)] by (rule q(2))
  qed
  then show ?thesis
    by (simp add: reprice_patches_def filter_empty_conv)
qed

lemma round_ten: "round_double 10 = Finite 10"
  by code_simp

lemma parse_ten: "parseFloat (js ''10'') = Finite 10"
  by (simp add: parseFloat_def decimal_prefix_def js_def isdigit_def digits_value_def
      exponent_part_def isspace_def round_ten)

lemma parse_ten_00: "parseFloat (js ''10.00'') = Finite 10"
  by (simp add: parseFloat_def decimal_prefix_def js_def isdigit_def digits_value_def
      exponent_part_def isspace_def round_ten)

lemma parse_abc: "parseFloat (js ''abc'') = NaN"
  by (simp add: parseFloat_def decimal_prefix_def js_def isdigit_def digits_value_def
      exponent_part_def isspace_def)

lemma fixed_ten: "toFixed 2 (Finite 10) = js ''10.00''"
  by code_simp

lemma ten_times_one: "num_times (Finite 10) (Finite 1) = Finite 10"
  by (simp add: round_ten)

definition priced :: "nat \<Rightarrow> string \<Rightarrow> product" where
  "priced i pr = mk_product i ''Bowl'' None [mk_variant (10 * i + 1) pr (Some 3) (JStr (js ''shopify''))] ''active''"

definition two_priced :: "product list" where
  "two_priced = [priced 1 ''10'', priced 3 ''10'']"

definition mixed :: product where
  "mixed = mk_product 1 ''Bowl'' None
     [mk_variant 11 ''10'' (Some 3) (JBool True),
      mk_variant 12 ''abc'' (Some 3) (JBool True),
      mk_variant 13 ''10'' (Some 3) (JBool True)] ''active''"

definition mixed_after :: product where
  "mixed_after = mk_product 1 ''Bowl'' None
     [mk_variant 11 ''11.00'' (Some 3) (JBool True),
      mk_variant 12 ''abc'' (Some 3) (JBool True),
      mk_variant 13 ''11.00'' (Some 3) (JBool True)] ''active''"

lemma priced_simps: "pid (priced i pr) = i" "variants_of (priced i pr) = [mk_variant (10 * i + 1) pr (Some 3) (JStr (js ''shopify''))]"
  by (simp_all add: priced_def mk_product_def variants_of_def)

lemma two_priced_ok:
  "ascending two_priced" "positive_ids two_priced" "safe_ids two_priced" "variants_apart two_priced"
  by (simp_all add: ascending_def positive_ids_def safe_ids_def variants_apart_def two_priced_def
      priced_simps mk_variant_def)

lemma ten_percent_up: "toFixed 2 (num_times (Finite 10) (factor (Finite 10))) = js ''11.00''"
  by code_simp

lemma ten_percent_patches:
  "reprice_patches (factor (Finite 10))
     [mk_variant 11 ''10'' (Some 3) (JBool True),
      mk_variant 12 ''abc'' (Some 3) (JBool True),
      mk_variant 13 ''10'' (Some 3) (JBool True)]
   = [PricePatch 11 (js ''11.00''), PricePatch 13 (js ''11.00'')]"
proof -
  have ne: "js ''11.00'' \<noteq> js ''10''"
    by (simp add: js_def)
  show ?thesis
    by (simp add: reprice_patches_def mk_variant_def parse_ten parse_abc isFinite_def ten_percent_up ne)
qed

lemma ten_percent_patches_priced:
  "reprice_patches (factor (Finite 10)) (variants_of (priced i ''10'')) = [PricePatch (10 * i + 1) (js ''11.00'')]"
proof -
  have ne: "js ''11.00'' \<noteq> js ''10''"
    by (simp add: js_def)
  show ?thesis
    by (simp add: reprice_patches_def priced_def mk_product_def variants_of_def mk_variant_def
        parse_ten isFinite_def ten_percent_up ne)
qed

definition reprice_writes :: "number \<Rightarrow> product \<Rightarrow> patch list" where
  "reprice_writes fac p = reprice_patches fac (variants_of p)"

definition reprice_acc :: "number \<Rightarrow> nat \<Rightarrow> product \<Rightarrow> nat" where
  "reprice_acc fac changed p = changed + length (reprice_patches fac (variants_of p))"

lemma reprice_product_via_writes:
  "reprice_product remote fac = via_writes remote (reprice_writes fac) (reprice_acc fac)"
  unfolding reprice_product_via reprice_writes_def reprice_acc_def ..

lemma reprice_patch_owned:
  assumes "pt \<in> set (reprice_patches fac (variants_of p))"
  shows "owned p pt"
  using assms by (auto simp: reprice_patches_def owned_def)

lemma reprice_writes_ok:
  assumes "variants_apart cat" "set ps \<subseteq> set cat"
    and "\<forall>p \<in> set ps. \<forall>pt \<in> set (reprice_writes fac p). fault (path_of pt) (put_init pt) = None"
  shows "writes_ok fault (reprice_writes fac) cat ps"
  unfolding writes_ok_def
proof (intro ballI conjI impI)
  fix p pt q
  assume p: "p \<in> set ps" and pt: "pt \<in> set (reprice_writes fac p)"
  show "fault (path_of pt) (put_init pt) = None"
    using assms(3) p pt by blast
  show own: "owned p pt"
    using pt unfolding reprice_writes_def by (rule reprice_patch_owned)
  assume q: "q \<in> set cat" "pid q \<noteq> pid p"
  from pt obtain i pr where i: "pt = PricePatch i pr" "i \<in> vid ` set (variants_of p)"
    by (auto simp: reprice_writes_def reprice_patches_def)
  have "vid ` set (variants_of p) \<inter> vid ` set (variants_of q) = {}"
    using assms(1,2) p q unfolding variants_apart_def by blast
  with i show "\<not> owned q pt"
    by (auto simp: owned_def)
qed

lemma foldl_reprice_acc:
  "foldl (reprice_acc fac) c ps = c + length (concat (map (reprice_writes fac) ps))"
  by (induction ps arbitrary: c) (simp_all add: reprice_acc_def reprice_writes_def)

lemma reprice_patches_append:
  "reprice_patches fac (xs @ ys) = reprice_patches fac xs @ reprice_patches fac ys"
  by (simp add: reprice_patches_def)

lemma reprice_patches_concat:
  "reprice_patches fac (concat xss) = concat (map (reprice_patches fac) xss)"
  by (induction xss) (simp_all add: reprice_patches_append, simp add: reprice_patches_def)

lemma concat_reprice_writes:
  "concat (map (reprice_writes fac) ps) = reprice_patches fac (concat (map variants_of ps))"
  by (induction ps) (simp_all add: reprice_patches_append reprice_writes_def, simp add: reprice_patches_def)

section \<open>A failing call ends the run\<close>

text \<open>
  For any remote: the calls a run adds to the log are all answered with a status in
  200..299, except possibly the last; and when the last one failed, the outcome of the run
  is the error \<open>shopify\<close> throws for it. \<open>stops_at_failure before out after\<close> says so of a
  step that takes the log from \<open>before\<close> to \<open>after\<close> with outcome \<open>out\<close>.
\<close>

definition failed_call :: "call \<Rightarrow> bool" where
  "failed_call c = (case c of Call pa ini rep \<Rightarrow> failed rep)"

definition call_error :: "call \<Rightarrow> error" where
  "call_error c = (case c of Call pa ini rep \<Rightarrow> error_of pa ini rep)"

definition stops_at_failure :: "call list \<Rightarrow> (error + 'a) \<Rightarrow> call list \<Rightarrow> bool" where
  "stops_at_failure before out after \<longleftrightarrow>
     (\<exists>cs. after = before @ cs
        \<and> (case out of
              Inr a \<Rightarrow> \<forall>c \<in> set cs. \<not> failed_call c
            | Inl e \<Rightarrow> cs \<noteq> [] \<and> (\<forall>c \<in> set (butlast cs). \<not> failed_call c)
                       \<and> (failed_call (last cs) \<longrightarrow> e = call_error (last cs))))"

lemma stops_refl: "stops_at_failure cs (Inr a) cs"
  by (simp add: stops_at_failure_def)

lemma stops_Inl:
  "stops_at_failure c (Inl e :: error + 'a) c' \<Longrightarrow> stops_at_failure c (Inl e :: error + 'b) c'"
  by (simp add: stops_at_failure_def)

lemma stops_Inr:
  "stops_at_failure c (Inr a :: error + 'a) c' \<Longrightarrow> stops_at_failure c (Inr b :: error + 'b) c'"
  by (simp add: stops_at_failure_def)

lemma stops_trans:
  assumes "stops_at_failure c0 (Inr a) c1" "stops_at_failure c1 out c2"
  shows "stops_at_failure c0 out c2"
proof -
  from assms(1) obtain xs where xs: "c1 = c0 @ xs" "\<forall>c \<in> set xs. \<not> failed_call c"
    by (auto simp: stops_at_failure_def)
  show ?thesis
  proof (cases out)
    case (Inr b)
    with assms(2) obtain ys where "c2 = c1 @ ys" "\<forall>c \<in> set ys. \<not> failed_call c"
      by (auto simp: stops_at_failure_def)
    with xs Inr show ?thesis
      by (auto simp: stops_at_failure_def)
  next
    case (Inl e)
    with assms(2) obtain ys where ys: "c2 = c1 @ ys" "ys \<noteq> []" "\<forall>c \<in> set (butlast ys). \<not> failed_call c"
      "failed_call (last ys) \<longrightarrow> e = call_error (last ys)"
      by (auto simp: stops_at_failure_def)
    have "c2 = c0 @ (xs @ ys)"
      by (simp add: xs ys)
    moreover have "xs @ ys \<noteq> []"
      using ys(2) by simp
    moreover have "\<forall>c \<in> set (butlast (xs @ ys)). \<not> failed_call c"
      using xs(2) ys(2,3) by (auto simp: butlast_append)
    moreover have "failed_call (last (xs @ ys)) \<longrightarrow> e = call_error (last (xs @ ys))"
      using ys(2,4) by simp
    ultimately show ?thesis
      unfolding stops_at_failure_def Inl by (intro exI[of _ "xs @ ys"]) simp
  qed
qed

lemma shopify_stops:
  assumes "shopify remote pa ini s = (out, s')"
  shows "stops_at_failure (calls s) out (calls s')"
proof -
  obtain rep w where r: "remote pa ini (world s) = (rep, w)"
    by (cases "remote pa ini (world s)")
  have c: "calls s' = calls s @ [Call pa ini rep]"
    using shopify_calls[of remote pa ini s] assms r by simp
  show ?thesis
  proof (cases rep)
    case (Rejected m)
    with assms r have "out = Inl (FetchError m)"
      by (simp add: shopify_def Let_def)
    then show ?thesis
      unfolding stops_at_failure_def c
      by (intro exI[of _ "[Call pa ini rep]"]) (simp add: failed_call_def call_error_def error_of_def Rejected)
  next
    case (Response st tx parsed)
    show ?thesis
    proof (cases "res_ok st")
      case False
      with assms r Response have "out = Inl (error_of pa ini rep)"
        by (simp add: shopify_def Let_def error_of_def)
      then show ?thesis
        unfolding stops_at_failure_def c
        by (intro exI[of _ "[Call pa ini rep]"]) (simp add: failed_call_def call_error_def)
    next
      case True
      then have nf: "\<not> failed_call (Call pa ini rep)"
        by (simp add: failed_call_def failed_def Response)
      show ?thesis
        unfolding stops_at_failure_def c using nf
        by (intro exI[of _ "[Call pa ini rep]"]) (cases out; simp)
    qed
  qed
qed

lemma do_writes_stops:
  assumes "do_writes remote W s = (out, s')"
  shows "stops_at_failure (calls s) out (calls s')"
  using assms
proof (induction W arbitrary: s)
  case Nil
  then show ?case
    by (auto simp: stops_refl)
next
  case (Cons pt W)
  obtain o1 s1 where sh: "shopify remote (path_of pt) (put_init pt) s = (o1, s1)"
    by (cases "shopify remote (path_of pt) (put_init pt) s")
  note st = shopify_stops[OF sh]
  show ?case
  proof (cases o1)
    case (Inl e)
    with Cons.prems sh have "out = Inl e" "s' = s1"
      by simp_all
    with st Inl show ?thesis
      by (auto intro: stops_Inl)
  next
    case (Inr d)
    with Cons.prems sh have "do_writes remote W s1 = (out, s')"
      by simp
    from Cons.IH[OF this] st show ?thesis
      unfolding Inr by (rule stops_trans[rotated])
  qed
qed

lemma via_writes_stops:
  assumes "via_writes remote wr accf acc p s = (out, s')"
  shows "stops_at_failure (calls s) out (calls s')"
proof -
  obtain o1 s1 where dw: "do_writes remote (wr p) s = (o1, s1)"
    by (cases "do_writes remote (wr p) s")
  from do_writes_stops[OF dw] assms dw show ?thesis
    by (cases o1) (auto simp: via_writes_def stops_at_failure_def)
qed

lemma for_products_stops:
  assumes "\<And>acc p s out s'. body acc p s = (out, s') \<Longrightarrow> stops_at_failure (calls s) out (calls s')"
    and "for_products body ps (sid, acc) s = (out, s')"
  shows "stops_at_failure (calls s) out (calls s')"
  using assms(2)
proof (induction ps arbitrary: sid acc s)
  case Nil
  then show ?case
    by (auto simp: stops_refl)
next
  case (Cons p ps)
  let ?s0 = "s\<lparr>visited := visited s @ [pid p]\<rparr>"
  obtain o1 s1 where b: "body acc p ?s0 = (o1, s1)"
    by (cases "body acc p ?s0")
  from assms(1)[OF b] have st: "stops_at_failure (calls s) o1 (calls s1)"
    by simp
  show ?case
  proof (cases o1)
    case (Inl e)
    with Cons.prems b have "out = Inl e" "s' = s1"
      by simp_all
    with st Inl show ?thesis
      by (auto intro: stops_Inl)
  next
    case (Inr a)
    with Cons.prems b have "for_products body ps (pid p, a) s1 = (out, s')"
      by simp
    from Cons.IH[OF this] st show ?thesis
      unfolding Inr by (rule stops_trans[rotated])
  qed
qed

definition run_stops :: "call list \<Rightarrow> (error + 'a) \<times> 'w net \<Rightarrow> bool" where
  "run_stops before y = stops_at_failure before (fst y) (calls (snd y))"

lemma paginate_stops:
  assumes body: "\<And>acc p s out s'. body0 acc p s = (out, s') \<Longrightarrow> stops_at_failure (calls s) out (calls s')"
    and run: "paginate remote page_path body0 sinceId acc s = Some (out, s')"
  shows "stops_at_failure (calls s) out (calls s')"
proof -
  have "body0 = body0 \<longrightarrow> (\<forall>c0 a0. stops_at_failure c0 (Inr a0 :: error + 'a) (calls s) \<longrightarrow> run_stops c0 (out, s'))"
  proof (rule paginate.raw_induct[where P = "\<lambda>remote pp body sinceId acc s y.
      body = body0 \<longrightarrow> (\<forall>c0 a0. stops_at_failure c0 (Inr a0 :: error + 'a) (calls s) \<longrightarrow> run_stops c0 y)", OF _ run])
    fix pag remote page_path body sinceId acc s y
    assume IH: "\<And>r pp b sid ac st y. pag r pp b sid ac st = Some y \<Longrightarrow>
        b = body0 \<longrightarrow> (\<forall>c0 a0. stops_at_failure c0 (Inr a0 :: error + 'a) (calls st) \<longrightarrow> run_stops c0 y)"
      and eq: "(case shopify remote (page_path sinceId) no_init s of
          (Inl e, s1) \<Rightarrow> Some (Inl e, s1)
        | (Inr data, s1) \<Rightarrow>
            (case (case products data of None \<Rightarrow> [] | Some ps \<Rightarrow> ps) of
               [] \<Rightarrow> Some (Inr acc, s1)
             | p # ps \<Rightarrow>
                 (case for_products body (p # ps) (sinceId, acc) s1 of
                    (Inl e, s2) \<Rightarrow> Some (Inl e, s2)
                  | (Inr (sinceId', acc'), s2) \<Rightarrow> pag remote page_path body sinceId' acc' s2))) = Some y"
    show "body = body0 \<longrightarrow> (\<forall>c0 a0. stops_at_failure c0 (Inr a0 :: error + 'a) (calls s) \<longrightarrow> run_stops c0 y)"
    proof (intro impI allI)
      fix c0 and a0 :: 'a
      assume bb: "body = body0" and pre: "stops_at_failure c0 (Inr a0 :: error + 'a) (calls s)"
      obtain r s1 where sh: "shopify remote (page_path sinceId) no_init s = (r, s1)"
        by (cases "shopify remote (page_path sinceId) no_init s")
      note st1 = shopify_stops[OF sh]
      show "run_stops c0 y"
      proof (cases r)
        case (Inl e)
        with eq sh have "y = (Inl e, s1)"
          by simp
        with stops_trans[OF pre st1] Inl show ?thesis
          by (auto simp: run_stops_def intro: stops_Inl)
      next
        case (Inr d)
        have pre1: "stops_at_failure c0 (Inr a0 :: error + 'a) (calls s1)"
          using stops_trans[OF pre st1[unfolded Inr]] by (rule stops_Inr)
        show ?thesis
        proof (cases "(case products d of None \<Rightarrow> [] | Some ps \<Rightarrow> ps)")
          case Nil
          with eq sh Inr have "y = (Inr acc, s1)"
            by simp
          with pre1 show ?thesis
            by (auto simp: run_stops_def intro: stops_Inr)
        next
          case (Cons p ps)
          obtain r2 s2 where fp: "for_products body (p # ps) (sinceId, acc) s1 = (r2, s2)"
            by (cases "for_products body (p # ps) (sinceId, acc) s1")
          have st2: "stops_at_failure (calls s1) r2 (calls s2)"
            using body fp unfolding bb by (rule for_products_stops)
          show ?thesis
          proof (cases r2)
            case (Inl e)
            with eq sh Inr Cons fp have "y = (Inl e, s2)"
              by simp
            with stops_trans[OF pre1 st2] Inl show ?thesis
              by (auto simp: run_stops_def intro: stops_Inl)
          next
            case r2: (Inr x)
            obtain sid' acc' where x: "x = (sid', acc')"
              by (cases x)
            from eq sh Inr Cons fp r2 x have rec: "pag remote page_path body sid' acc' s2 = Some y"
              by simp
            have pre2: "stops_at_failure c0 (Inr a0 :: error + 'a) (calls s2)"
              using stops_trans[OF pre1 st2[unfolded r2]] by (rule stops_Inr)
            from IH[OF rec] bb pre2 show ?thesis
              by blast
          qed
        qed
      qed
    qed
  qed
  then have "run_stops (calls s) (out, s')"
    using stops_refl[of "calls s" acc] by blast
  then show ?thesis
    by (simp add: run_stops_def)
qed

lemma stops_failed_index:
  assumes "stops_at_failure before out after"
    and "length before \<le> i" "i < length after" "after ! i = Call pa ini rp" "failed rp"
  shows "Suc i = length after \<and> out = Inl (error_of pa ini rp)"
proof -
  from assms(1) obtain cs where cs: "after = before @ cs"
    and shape: "(case out of
              Inr a \<Rightarrow> \<forall>c \<in> set cs. \<not> failed_call c
            | Inl e \<Rightarrow> cs \<noteq> [] \<and> (\<forall>c \<in> set (butlast cs). \<not> failed_call c)
                       \<and> (failed_call (last cs) \<longrightarrow> e = call_error (last cs)))"
    unfolding stops_at_failure_def by blast
  define j where "j = i - length before"
  have j: "j < length cs" "cs ! j = Call pa ini rp"
    using assms(2,3,4) unfolding cs j_def by (simp_all add: nth_append)
  have fc: "failed_call (cs ! j)"
    unfolding j(2) using assms(5) by (simp add: failed_call_def)
  show ?thesis
  proof (cases out)
    case (Inr a)
    with shape have "\<forall>c \<in> set cs. \<not> failed_call c"
      by simp
    moreover have "cs ! j \<in> set cs"
      using j(1) by (rule nth_mem)
    ultimately show ?thesis
      using fc by blast
  next
    case (Inl e)
    with shape have ne: "cs \<noteq> []" and bl: "\<forall>c \<in> set (butlast cs). \<not> failed_call c"
      and la: "failed_call (last cs) \<longrightarrow> e = call_error (last cs)"
      by simp_all
    have "\<not> j < length cs - 1"
    proof
      assume "j < length cs - 1"
      then have "butlast cs ! j = cs ! j" "j < length (butlast cs)"
        by (simp_all add: nth_butlast)
      then have "cs ! j \<in> set (butlast cs)"
        by (metis nth_mem)
      with bl fc show False
        by blast
    qed
    with j(1) have jl: "j = length cs - 1"
      by simp
    then have "last cs = cs ! j"
      using ne by (simp add: last_conv_nth)
    with la fc have "e = error_of pa ini rp"
      unfolding j(2) by (simp add: call_error_def)
    moreover have "Suc i = length after"
      using jl ne assms(2) unfolding cs j_def by (cases cs) auto
    ultimately show ?thesis
      using Inl by simp
  qed
qed

lemma body_stops:
  "update_product remote ap acc p s = (out, s') \<Longrightarrow> stops_at_failure (calls s) out (calls s')"
  "hide_product remote h p s = (out2, s') \<Longrightarrow> stops_at_failure (calls s) out2 (calls s')"
  "reprice_product remote fac h p s = (out2, s') \<Longrightarrow> stops_at_failure (calls s) out2 (calls s')"
  unfolding update_product_via hide_product_via reprice_product_via_writes
  by (rule via_writes_stops, assumption)+

lemma failing_call_ends_run:
  assumes "updateAllDescriptions remote ap t = Some (out, t')
         \<or> hideOutOfStock remote t = Some (out, t')
         \<or> simpleReprice remote percent t = Some (out, t')"
    and "length (calls t) \<le> i" "i < length (calls t')" "calls t' ! i = Call pa ini rp" "failed rp"
  shows "Suc i = length (calls t') \<and> out = Inl (error_of pa ini rp)"
  using assms(1)
proof (elim disjE)
  assume run: "updateAllDescriptions remote ap t = Some (out, t')"
  then obtain o1 where p: "paginate remote (\<lambda>sinceId. ProductsPage 250 sinceId None)
      (update_product remote ap) 0 (0, []) t = Some (o1, t')"
    and o: "(case o1 of Inl e \<Rightarrow> out = Inl e | Inr a \<Rightarrow> \<exists>r. out = Inr r)"
    by (auto simp: updateAllDescriptions_def split: option.splits prod.splits sum.splits)
  from paginate_stops[OF body_stops(1) p] have "stops_at_failure (calls t) o1 (calls t')" .
  from stops_failed_index[OF this assms(2-5)] o show ?thesis
    by simp
next
  assume run: "hideOutOfStock remote t = Some (out, t')"
  then obtain o1 where p: "paginate remote
      (\<lambda>sinceId. ProductsPage 250 sinceId (Some (js ''id,title,variants,status'')))
      (hide_product remote) 0 0 t = Some (o1, t')"
    and o: "(case o1 of Inl e \<Rightarrow> out = Inl e | Inr a \<Rightarrow> \<exists>r. out = Inr r)"
    by (auto simp: hideOutOfStock_def split: option.splits prod.splits sum.splits)
  from paginate_stops[OF body_stops(2) p] have "stops_at_failure (calls t) o1 (calls t')" .
  from stops_failed_index[OF this assms(2-5)] o show ?thesis
    by simp
next
  assume run: "simpleReprice remote percent t = Some (out, t')"
  then obtain o1 where p: "paginate remote
      (\<lambda>sinceId. ProductsPage 100 sinceId (Some (js ''id,title,variants'')))
      (reprice_product remote (factor percent)) 0 0 t = Some (o1, t')"
    and o: "(case o1 of Inl e \<Rightarrow> out = Inl e | Inr a \<Rightarrow> \<exists>r. out = Inr r)"
    by (auto simp: simpleReprice_def split: option.splits prod.splits sum.splits)
  from paginate_stops[OF body_stops(3) p] have "stops_at_failure (calls t) o1 (calls t')" .
  from stops_failed_index[OF this assms(2-5)] o show ?thesis
    by simp
qed

section \<open>Whole runs\<close>

text \<open>
  The three operations on a store that fails no call: what the run returns, what the store
  holds afterwards, the products the loop body was entered for, the writes issued and the
  pages served.
\<close>

lemma update_run:
  assumes "0 < min 250 cap" "ascending cat"
  shows "\<exists>s'. updateAllDescriptions (store_remote no_fault cap) ap (start cat)
             = Some (Inr (if ap then Updated (length (filter (\<lambda>p. \<not> same_description p) (above 0 cat)))
                         else Preview (length (filter (\<lambda>p. \<not> same_description p) (above 0 cat)))
                                (map (\<lambda>p. (pid p, title p)) (filter (\<lambda>p. \<not> same_description p) (above 0 cat)))), s')
          \<and> world s' = map (fold patch_product (concat (map (description_writes ap) (above 0 cat)))) cat
          \<and> visited s' = map pid (above 0 cat)
          \<and> write_calls (calls s') = map ok_call (concat (map (description_writes ap) (above 0 cat)))
          \<and> pages (calls s') = chunks (min 250 cap) (above 0 cat) @ [[]]"
proof -
  have asc: "ascending (world (start cat))"
    using assms(2) by simp
  have ok: "writes_ok no_fault (description_writes ap) (world (start cat)) (above 0 (world (start cat)))"
    by (rule description_writes_ok)
  from paginate_store_ok[of 250 cap no_fault None "start cat" "description_writes ap" 0
      "description_acc ap" "(0, [])", OF assms(1) no_fault_page asc ok]
  obtain s' where s':
    "paginate (store_remote no_fault cap) (\<lambda>k. ProductsPage 250 k None)
        (update_product (store_remote no_fault cap) ap) 0 (0, []) (start cat)
       = Some (Inr (foldl (description_acc ap) (0, []) (above 0 cat)), s')"
    "world s' = map (fold patch_product (concat (map (description_writes ap) (above 0 cat)))) cat"
    "visited s' = map pid (above 0 cat)"
    "write_calls (calls s') = map ok_call (concat (map (description_writes ap) (above 0 cat)))"
    "pages (calls s') = chunks (min 250 cap) (above 0 cat) @ [[]]"
    unfolding update_product_via by auto
  have "updateAllDescriptions (store_remote no_fault cap) ap (start cat)
      = Some (Inr (if ap then Updated (length (filter (\<lambda>p. \<not> same_description p) (above 0 cat)))
                   else Preview (length (filter (\<lambda>p. \<not> same_description p) (above 0 cat)))
                          (map (\<lambda>p. (pid p, title p)) (filter (\<lambda>p. \<not> same_description p) (above 0 cat)))), s')"
    unfolding updateAllDescriptions_def s'(1)
    by (cases ap) (simp_all add: foldl_description_acc_apply foldl_description_acc_preview)
  with s'(2-5) show ?thesis
    by blast
qed

lemma hide_run:
  assumes "0 < min 250 cap" "ascending cat"
  shows "\<exists>s'. hideOutOfStock (store_remote no_fault cap) (start cat)
             = Some (Inr (Hidden (length (filter (\<lambda>p. allZero p \<and> status p \<noteq> js ''draft'') (above 0 cat)))), s')
          \<and> world s' = map (fold patch_product (concat (map hide_writes (above 0 cat)))) cat
          \<and> visited s' = map pid (above 0 cat)
          \<and> write_calls (calls s') = map ok_call (concat (map hide_writes (above 0 cat)))
          \<and> pages (calls s') = chunks (min 250 cap) (above 0 cat) @ [[]]"
proof -
  have asc: "ascending (world (start cat))"
    using assms(2) by simp
  have ok: "writes_ok no_fault hide_writes (world (start cat)) (above 0 (world (start cat)))"
    by (rule hide_writes_ok)
  from paginate_store_ok[of 250 cap no_fault "Some (js ''id,title,variants,status'')" "start cat"
      hide_writes 0 hide_acc 0, OF assms(1) no_fault_page asc ok]
  obtain s' where s':
    "paginate (store_remote no_fault cap) (\<lambda>k. ProductsPage 250 k (Some (js ''id,title,variants,status'')))
        (hide_product (store_remote no_fault cap)) 0 0 (start cat)
       = Some (Inr (foldl hide_acc 0 (above 0 cat)), s')"
    "world s' = map (fold patch_product (concat (map hide_writes (above 0 cat)))) cat"
    "visited s' = map pid (above 0 cat)"
    "write_calls (calls s') = map ok_call (concat (map hide_writes (above 0 cat)))"
    "pages (calls s') = chunks (min 250 cap) (above 0 cat) @ [[]]"
    unfolding hide_product_via by auto
  have "hideOutOfStock (store_remote no_fault cap) (start cat)
      = Some (Inr (Hidden (length (filter (\<lambda>p. allZero p \<and> status p \<noteq> js ''draft'') (above 0 cat)))), s')"
    unfolding hideOutOfStock_def s'(1) by (simp add: foldl_hide_acc)
  with s'(2-5) show ?thesis
    by blast
qed

lemma reprice_run:
  assumes "0 < min 100 cap" "ascending cat" "variants_apart cat"
  shows "\<exists>s'. simpleReprice (store_remote no_fault cap) percent (start cat)
             = Some (Inr (Changed (length (concat (map (reprice_writes (factor percent)) (above 0 cat))))), s')
          \<and> world s' = map (fold patch_product (concat (map (reprice_writes (factor percent)) (above 0 cat)))) cat
          \<and> visited s' = map pid (above 0 cat)
          \<and> write_calls (calls s') = map ok_call (concat (map (reprice_writes (factor percent)) (above 0 cat)))
          \<and> pages (calls s') = chunks (min 100 cap) (above 0 cat) @ [[]]"
proof -
  let ?wr = "reprice_writes (factor percent)"
  have asc: "ascending (world (start cat))"
    using assms(2) by simp
  have sub: "set (above 0 cat) \<subseteq> set cat"
    by (auto simp: above_def)
  have "writes_ok no_fault ?wr cat (above 0 cat)"
    using assms(3) sub by (rule reprice_writes_ok) (simp add: no_fault_def)
  then have ok: "writes_ok no_fault ?wr (world (start cat)) (above 0 (world (start cat)))"
    by simp
  from paginate_store_ok[of 100 cap no_fault "Some (js ''id,title,variants'')" "start cat"
      ?wr 0 "reprice_acc (factor percent)" 0, OF assms(1) no_fault_page asc ok]
  obtain s' where s':
    "paginate (store_remote no_fault cap) (\<lambda>k. ProductsPage 100 k (Some (js ''id,title,variants'')))
        (reprice_product (store_remote no_fault cap) (factor percent)) 0 0 (start cat)
       = Some (Inr (foldl (reprice_acc (factor percent)) 0 (above 0 cat)), s')"
    "world s' = map (fold patch_product (concat (map ?wr (above 0 cat)))) cat"
    "visited s' = map pid (above 0 cat)"
    "write_calls (calls s') = map ok_call (concat (map ?wr (above 0 cat)))"
    "pages (calls s') = chunks (min 100 cap) (above 0 cat) @ [[]]"
    unfolding reprice_product_via_writes by auto
  have "simpleReprice (store_remote no_fault cap) percent (start cat)
      = Some (Inr (Changed (length (concat (map ?wr (above 0 cat))))), s')"
    unfolding simpleReprice_def s'(1) by (simp add: foldl_reprice_acc)
  with s'(2-5) show ?thesis
    by blast
qed

lemma mixed_run:
  "\<exists>s'. simpleReprice (store_remote no_fault 250) (Finite 10) (start [mixed, priced 2 ''10''])
          = Some (Inr (Changed 3), s')
       \<and> write_calls (calls s')
          = [ok_call (PricePatch 11 (js ''11.00'')), ok_call (PricePatch 13 (js ''11.00'')),
             ok_call (PricePatch 21 (js ''11.00''))]
       \<and> world s' = [mixed_after, priced 2 ''11.00'']
       \<and> visited s' = [1, 2]"
proof -
  let ?cat = "[mixed, priced 2 ''10'']"
  have ids: "pid mixed = 1" "pid (priced 2 ''10'') = 2"
    by (simp_all add: mixed_def priced_def mk_product_def)
  have asc: "ascending ?cat"
    by (simp add: ascending_def ids)
  have ab: "above 0 ?cat = ?cat"
    by (simp add: above_def ids)
  have apart: "variants_apart ?cat"
    by (auto simp: variants_apart_def mixed_def priced_def mk_product_def mk_variant_def variants_of_def)
  have w1: "reprice_writes (factor (Finite 10)) mixed = [PricePatch 11 (js ''11.00''), PricePatch 13 (js ''11.00'')]"
    unfolding reprice_writes_def using ten_percent_patches
    by (simp add: mixed_def mk_product_def variants_of_def)
  have w2: "reprice_writes (factor (Finite 10)) (priced 2 ''10'') = [PricePatch 21 (js ''11.00'')]"
    unfolding reprice_writes_def ten_percent_patches_priced by simp
  have P: "0 < min 100 (250::nat)"
    by simp
  have world: "map (fold patch_product [PricePatch 11 (js ''11.00''), PricePatch 13 (js ''11.00''),
      PricePatch 21 (js ''11.00'')]) ?cat = [mixed_after, priced 2 ''11.00'']"
    by (simp add: mixed_def mixed_after_def priced_def mk_product_def mk_variant_def)
  have cc: "concat (map (reprice_writes (factor (Finite 10))) ?cat)
      = [PricePatch 11 (js ''11.00''), PricePatch 13 (js ''11.00''), PricePatch 21 (js ''11.00'')]"
    by (simp add: w1 w2)
  from reprice_run[OF P asc apart, of "Finite 10"] obtain s' where s':
    "simpleReprice (store_remote no_fault 250) (Finite 10) (start ?cat)
       = Some (Inr (Changed (length (concat (map (reprice_writes (factor (Finite 10))) ?cat)))), s')"
    "world s' = map (fold patch_product (concat (map (reprice_writes (factor (Finite 10))) ?cat))) ?cat"
    "visited s' = map pid ?cat"
    "write_calls (calls s') = map ok_call (concat (map (reprice_writes (factor (Finite 10))) ?cat))"
    unfolding ab by blast
  have "visited s' = [1, 2]"
    unfolding s'(3) by (simp only: list.map ids)
  moreover have "world s' = [mixed_after, priced 2 ''11.00'']"
    unfolding s'(2) cc by (rule world)
  moreover have "simpleReprice (store_remote no_fault 250) (Finite 10) (start ?cat) = Some (Inr (Changed 3), s')"
    unfolding s'(1) cc by simp
  moreover have "write_calls (calls s')
      = [ok_call (PricePatch 11 (js ''11.00'')), ok_call (PricePatch 13 (js ''11.00'')),
         ok_call (PricePatch 21 (js ''11.00''))]"
    unfolding s'(4) cc by simp
  ultimately show ?thesis
    by blast
qed

lemma hide_patch_effect:
  "fold patch_product (hide_writes q) q
     = (if allZero q \<and> status q \<noteq> js ''draft'' then q\<lparr>status := js ''draft''\<rparr> else q)"
  by (simp add: hide_writes_def)

lemma pages_shape:
  assumes "0 < n" "pgs = chunks n xs @ [[]]"
  shows "length pgs = (length xs + n - 1) div n + 1 \<and> concat pgs = xs \<and> last pgs = []
         \<and> (\<forall>pg \<in> set (butlast pgs). pg \<noteq> [])"
  using chunks_nonempty[OF assms(1), of xs]
  by (simp add: assms(2) length_chunks concat_chunks[OF assms(1)] butlast_append)

text \<open>
  Claim C5: a store serves a catalog of \<open>N\<close> products, with distinct positive identifiers in
  ascending order, each in the range a double holds exactly, in pages of \<open>P\<close> (\<open>0 < P\<close>,
  and \<open>P\<close> at most the 250 the code asks for). The description rewrite (in either mode),
  the stock-hide run and, when no variant identifier occurs in two products, the reprice
  run (which asks for 100, so its pages hold \<open>min 100 P\<close> products) then return a result;
  the loop body is entered for every product exactly once, in catalog order; the run issues
  \<open>\<lceil>N/P\<rceil> + 1\<close> page requests whose pages together are the catalog; the last page is
  empty and no page before it is, so the run stops at the first empty page and nowhere
  else. And whatever the remote does, a run that returns a result has just received an
  empty page.
\<close>

theorem pagination_complete:
  assumes "ascending cat" "positive_ids cat" "safe_ids cat" "0 < P" "P \<le> 250"
  shows "(\<exists>r s'. updateAllDescriptions (store_remote no_fault P) ap (start cat) = Some (Inr r, s')
            \<and> visited s' = map pid cat \<and> distinct (visited s')
            \<and> length (pages (calls s')) = (length cat + P - 1) div P + 1
            \<and> concat (pages (calls s')) = cat
            \<and> last (pages (calls s')) = []
            \<and> (\<forall>pg \<in> set (butlast (pages (calls s'))). pg \<noteq> []))
       \<and> (\<exists>r s'. hideOutOfStock (store_remote no_fault P) (start cat) = Some (Inr r, s')
            \<and> visited s' = map pid cat \<and> distinct (visited s')
            \<and> length (pages (calls s')) = (length cat + P - 1) div P + 1
            \<and> concat (pages (calls s')) = cat
            \<and> last (pages (calls s')) = []
            \<and> (\<forall>pg \<in> set (butlast (pages (calls s'))). pg \<noteq> []))
       \<and> (variants_apart cat \<longrightarrow>
            (\<exists>r s'. simpleReprice (store_remote no_fault P) percent (start cat) = Some (Inr r, s')
               \<and> visited s' = map pid cat \<and> distinct (visited s')
               \<and> length (pages (calls s')) = (length cat + min 100 P - 1) div min 100 P + 1
               \<and> concat (pages (calls s')) = cat
               \<and> last (pages (calls s')) = []
               \<and> (\<forall>pg \<in> set (butlast (pages (calls s'))). pg \<noteq> [])))
       \<and> (updateAllDescriptions remote ap' t = Some (Inr res, t')
            \<or> hideOutOfStock remote t = Some (Inr res, t')
            \<or> simpleReprice remote percent' t = Some (Inr res, t')
          \<longrightarrow> calls t' \<noteq> [] \<and> is_page (last (calls t')) \<and> page_of (last (calls t')) = [])"
proof -
  have P: "0 < min 250 P" "min 250 P = P" "0 < min 100 P"
    using assms(4,5) by simp_all
  have all: "above 0 cat = cat"
    by (rule above_all[OF assms(2)])
  have d: "distinct (map pid cat)"
    by (rule ascending_distinct[OF assms(1)])
  from update_run[OF P(1) assms(1), of ap] obtain s1 r1 where 1:
    "updateAllDescriptions (store_remote no_fault P) ap (start cat) = Some (Inr r1, s1)"
    "visited s1 = map pid cat" "pages (calls s1) = chunks P cat @ [[]]"
    unfolding all P(2) by blast
  from hide_run[OF P(1) assms(1)] obtain s2 r2 where 2:
    "hideOutOfStock (store_remote no_fault P) (start cat) = Some (Inr r2, s2)"
    "visited s2 = map pid cat" "pages (calls s2) = chunks P cat @ [[]]"
    unfolding all P(2) by blast
  have 3: "\<exists>r s'. simpleReprice (store_remote no_fault P) percent (start cat) = Some (Inr r, s')
               \<and> visited s' = map pid cat \<and> distinct (visited s')
               \<and> length (pages (calls s')) = (length cat + min 100 P - 1) div min 100 P + 1
               \<and> concat (pages (calls s')) = cat
               \<and> last (pages (calls s')) = []
               \<and> (\<forall>pg \<in> set (butlast (pages (calls s'))). pg \<noteq> [])" if "variants_apart cat"
  proof -
    from reprice_run[OF P(3) assms(1) that, of percent] obtain s3 r3 where 3:
      "simpleReprice (store_remote no_fault P) percent (start cat) = Some (Inr r3, s3)"
      "visited s3 = map pid cat" "pages (calls s3) = chunks (min 100 P) cat @ [[]]"
      unfolding all by blast
    show ?thesis
      using 3 d pages_shape[OF P(3) 3(3)]
      by (intro conjI exI[of _ r3] exI[of _ s3]) simp_all
  qed
  have 12: "(\<exists>r s'. updateAllDescriptions (store_remote no_fault P) ap (start cat) = Some (Inr r, s')
            \<and> visited s' = map pid cat \<and> distinct (visited s')
            \<and> length (pages (calls s')) = (length cat + P - 1) div P + 1
            \<and> concat (pages (calls s')) = cat
            \<and> last (pages (calls s')) = []
            \<and> (\<forall>pg \<in> set (butlast (pages (calls s'))). pg \<noteq> []))
       \<and> (\<exists>r s'. hideOutOfStock (store_remote no_fault P) (start cat) = Some (Inr r, s')
            \<and> visited s' = map pid cat \<and> distinct (visited s')
            \<and> length (pages (calls s')) = (length cat + P - 1) div P + 1
            \<and> concat (pages (calls s')) = cat
            \<and> last (pages (calls s')) = []
            \<and> (\<forall>pg \<in> set (butlast (pages (calls s'))). pg \<noteq> []))"
    using 1 2 d pages_shape[OF assms(4) 1(3)] pages_shape[OF assms(4) 2(3)]
    by (intro conjI exI[of _ r1] exI[of _ s1] exI[of _ r2] exI[of _ s2]) simp_all
  have 4: "updateAllDescriptions remote ap' t = Some (Inr res, t')
            \<or> hideOutOfStock remote t = Some (Inr res, t')
            \<or> simpleReprice remote percent' t = Some (Inr res, t')
          \<longrightarrow> calls t' \<noteq> [] \<and> is_page (last (calls t')) \<and> page_of (last (calls t')) = []"
    using result_needs_empty_page[of remote ap' t res t' percent'] by blast
  show ?thesis
    using 12 3 4 by blast
qed

theorem pagination_complete_witness:
  "(\<exists>r s'. updateAllDescriptions (store_remote no_fault 1) True (start two_products) = Some (Inr r, s')
       \<and> visited s' = [1, 3] \<and> length (pages (calls s')) = 3 \<and> last (pages (calls s')) = [])
   \<and> (\<exists>r s'. hideOutOfStock (store_remote no_fault 1) (start two_products) = Some (Inr r, s')
       \<and> visited s' = [1, 3] \<and> length (pages (calls s')) = 3 \<and> last (pages (calls s')) = [])
   \<and> (\<exists>r s'. simpleReprice (store_remote no_fault 1) (Finite 10) (start two_priced) = Some (Inr r, s')
       \<and> visited s' = [1, 3] \<and> length (pages (calls s')) = 3 \<and> last (pages (calls s')) = [])"
proof -
  have ids: "map pid two_products = [1, 3]" "length two_products = 2"
    by (simp_all add: two_products_def plain_def mk_product_def)
  have idp: "map pid two_priced = [1, 3]" "length two_priced = 2"
    by (simp_all add: two_priced_def priced_simps)
  have one: "0 < (1::nat)" "(1::nat) \<le> 250"
    by simp_all
  have m: "min 100 (1::nat) = 1"
    by simp
  have a: "(\<exists>r s'. updateAllDescriptions (store_remote no_fault 1) True (start two_products) = Some (Inr r, s')
       \<and> visited s' = [1, 3] \<and> length (pages (calls s')) = 3 \<and> last (pages (calls s')) = [])
   \<and> (\<exists>r s'. hideOutOfStock (store_remote no_fault 1) (start two_products) = Some (Inr r, s')
       \<and> visited s' = [1, 3] \<and> length (pages (calls s')) = 3 \<and> last (pages (calls s')) = [])"
    using pagination_complete[OF two_products_ok two_products_safe(1) one, of True] unfolding ids by fastforce
  have b: "\<exists>r s'. simpleReprice (store_remote no_fault 1) (Finite 10) (start two_priced) = Some (Inr r, s')
       \<and> visited s' = [1, 3] \<and> length (pages (calls s')) = 3 \<and> last (pages (calls s')) = []"
    using pagination_complete[OF two_priced_ok(1,2,3) one, of True "Finite 10"] two_priced_ok(4)
    unfolding idp m by fastforce
  show ?thesis
    using a b by blast
qed

text \<open>
  Claim C6: on such a store (distinct positive identifiers in ascending order, each in the
  range a double holds exactly, no failing call), the description rewrite in dry-run mode issues no write, leaves
  the catalog as it is and returns the preview of exactly the products that need a
  rewrite, as \<open>(id, title)\<close> in catalog order, with \<open>preview_count\<close> its length; in apply
  mode it returns \<open>updated = k\<close> and issues exactly \<open>k\<close> writes, one per product that
  needs a rewrite, where \<open>k\<close> is the number of those products.
\<close>

theorem preview_versus_apply:
  assumes "ascending cat" "positive_ids cat" "safe_ids cat" "0 < cap"
  shows "(\<exists>s'. updateAllDescriptions (store_remote no_fault cap) False (start cat)
             = Some (Inr (Preview (length (filter (\<lambda>p. \<not> same_description p) cat))
                           (map (\<lambda>p. (pid p, title p)) (filter (\<lambda>p. \<not> same_description p) cat))), s')
           \<and> write_calls (calls s') = [] \<and> world s' = cat)
       \<and> (\<exists>s'. updateAllDescriptions (store_remote no_fault cap) True (start cat)
             = Some (Inr (Updated (length (filter (\<lambda>p. \<not> same_description p) cat))), s')
           \<and> length (write_calls (calls s')) = length (filter (\<lambda>p. \<not> same_description p) cat)
           \<and> write_calls (calls s')
               = map (\<lambda>p. ok_call (BodyHtmlPatch (pid p) (buildDescription p)))
                   (filter (\<lambda>p. \<not> same_description p) cat))"
proof -
  have P: "0 < min 250 cap"
    using assms(4) by simp
  have all: "above 0 cat = cat"
    by (rule above_all[OF assms(2)])
  from update_run[OF P assms(1), of False] obtain s1 where 1:
    "updateAllDescriptions (store_remote no_fault cap) False (start cat)
       = Some (Inr (Preview (length (filter (\<lambda>p. \<not> same_description p) cat))
                     (map (\<lambda>p. (pid p, title p)) (filter (\<lambda>p. \<not> same_description p) cat))), s1)"
    "write_calls (calls s1) = []" "world s1 = cat"
    unfolding all by (auto simp: concat_description_writes_preview)
  from update_run[OF P assms(1), of True] obtain s2 where 2:
    "updateAllDescriptions (store_remote no_fault cap) True (start cat)
       = Some (Inr (Updated (length (filter (\<lambda>p. \<not> same_description p) cat))), s2)"
    "write_calls (calls s2)
       = map (\<lambda>p. ok_call (BodyHtmlPatch (pid p) (buildDescription p))) (filter (\<lambda>p. \<not> same_description p) cat)"
    unfolding all by (auto simp: concat_description_writes_apply comp_def)
  show ?thesis
    using 1 2 by (intro conjI exI[of _ s1] exI[of _ s2]) simp_all
qed

theorem preview_versus_apply_witness:
  "(\<exists>s'. updateAllDescriptions (store_remote no_fault 250) False (start two_products)
            = Some (Inr (Preview 2 [(1, js ''Bowl''), (3, js ''Leash'')]), s')
          \<and> write_calls (calls s') = [])
   \<and> (\<exists>s'. updateAllDescriptions (store_remote no_fault 250) True (start two_products)
            = Some (Inr (Updated 2), s')
          \<and> length (write_calls (calls s')) = 2)"
proof -
  have f: "filter (\<lambda>p. \<not> same_description p) two_products = two_products"
    by (simp add: two_products_def plain_needs)
  have m: "map (\<lambda>p. (pid p, title p)) two_products = [(1, js ''Bowl''), (3, js ''Leash'')]"
    "length two_products = 2"
    by (simp_all add: two_products_def plain_def mk_product_def)
  show ?thesis
    using preview_versus_apply[OF two_products_ok two_products_safe(1), of 250] unfolding f m by fastforce
qed

text \<open>
  Claim C8: with two tracked variants of quantity 0 and status \<open>active\<close> the step issues
  the write of status \<open>draft\<close> (and counts it when the write succeeds); with one tracked
  variant of quantity 5 it writes nothing; with one untracked variant of quantity 0 and
  status \<open>active\<close> it writes nothing. A run over a store holding one product of each
  kind hides the first and only it.
\<close>

theorem hide_rule_examples:
  "hide_product remote hidden
      (p\<lparr>variants := Some [v\<lparr>inventory_quantity := Some 0, inventory_management := JBool True\<rparr>,
                           w\<lparr>inventory_quantity := Some 0, inventory_management := JBool True\<rparr>],
         status := js ''active''\<rparr>) s
     = (case shopify remote (ProductPath (pid p)) (put_init (StatusPatch (pid p) (js ''draft''))) s of
          (Inl e, s') \<Rightarrow> (Inl e, s')
        | (Inr d, s') \<Rightarrow> (Inr (hidden + 1), s'))
   \<and> hide_product remote hidden
        (p\<lparr>variants := Some [v\<lparr>inventory_quantity := Some 5, inventory_management := JBool True\<rparr>]\<rparr>) s
     = (Inr hidden, s)
   \<and> hide_product remote hidden
        (p\<lparr>variants := Some [v\<lparr>inventory_quantity := Some 0, inventory_management := JBool False\<rparr>],
           status := js ''active''\<rparr>) s
     = (Inr hidden, s)
   \<and> (\<exists>s'. hideOutOfStock (store_remote no_fault 250) (start [sold_out, in_stock, untracked])
            = Some (Inr (Hidden 1), s')
          \<and> world s' = [sold_out\<lparr>status := js ''draft''\<rparr>, in_stock, untracked]
          \<and> write_calls (calls s') = [ok_call (StatusPatch 1 (js ''draft''))])"
proof -
  let ?cat = "[sold_out, in_stock, untracked]"
  have steps: "hide_product remote hidden
      (p\<lparr>variants := Some [v\<lparr>inventory_quantity := Some 0, inventory_management := JBool True\<rparr>,
                           w\<lparr>inventory_quantity := Some 0, inventory_management := JBool True\<rparr>],
         status := js ''active''\<rparr>) s
     = (case shopify remote (ProductPath (pid p)) (put_init (StatusPatch (pid p) (js ''draft''))) s of
          (Inl e, s') \<Rightarrow> (Inl e, s')
        | (Inr d, s') \<Rightarrow> (Inr (hidden + 1), s'))
   \<and> hide_product remote hidden
        (p\<lparr>variants := Some [v\<lparr>inventory_quantity := Some 5, inventory_management := JBool True\<rparr>]\<rparr>) s
     = (Inr hidden, s)
   \<and> hide_product remote hidden
        (p\<lparr>variants := Some [v\<lparr>inventory_quantity := Some 0, inventory_management := JBool False\<rparr>],
           status := js ''active''\<rparr>) s
     = (Inr hidden, s)"
    by (simp add: hide_product_def allZero_def zero_and_tracked_def js_def)
  have asc: "ascending ?cat"
    by (simp add: ascending_def sold_out_def in_stock_def untracked_def mk_product_def)
  have ab: "above 0 ?cat = ?cat"
    by (simp add: above_def sold_out_def in_stock_def untracked_def mk_product_def)
  have z: "allZero sold_out \<and> status sold_out \<noteq> js ''draft''" "\<not> allZero in_stock" "\<not> allZero untracked"
    by (simp_all add: allZero_def zero_and_tracked_def sold_out_def in_stock_def untracked_def
        mk_product_def mk_variant_def js_def)
  have ids: "pid sold_out = 1" "pid in_stock = 2" "pid untracked = 3"
    by (simp_all add: sold_out_def in_stock_def untracked_def mk_product_def)
  have P: "0 < min 250 (250::nat)"
    by simp
  from hide_run[OF P asc] obtain s' where s':
    "hideOutOfStock (store_remote no_fault 250) (start ?cat) = Some (Inr (Hidden 1), s')"
    "world s' = [sold_out\<lparr>status := js ''draft''\<rparr>, in_stock, untracked]"
    "write_calls (calls s') = [ok_call (StatusPatch 1 (js ''draft''))]"
    unfolding ab by (auto simp: z ids hide_writes_def)
  then show ?thesis
    using steps by blast
qed

lemma first_run_world:
  assumes "ascending cat" "q \<in> set cat"
  shows "fold patch_product (concat (map (description_writes True) (above 0 cat))) q
     = (if 0 < pid q \<and> \<not> same_description q then q\<lparr>body_html := Some (buildDescription q)\<rparr> else q)"
proof -
  have d: "distinct (map pid cat)"
    by (rule ascending_distinct[OF assms(1)])
  then have "distinct cat"
    by (simp add: distinct_map)
  then have dp: "distinct (above 0 cat)"
    by (simp add: above_def)
  have sub: "set (above 0 cat) \<subseteq> set cat"
    by (auto simp: above_def)
  have own: "\<forall>p \<in> set (above 0 cat). \<forall>pt \<in> set (description_writes True p).
      \<forall>r \<in> set cat. pid r \<noteq> pid p \<longrightarrow> \<not> owned r pt"
    by (simp add: description_writes_def owned_def)
  have "q \<in> set (above 0 cat) \<longleftrightarrow> 0 < pid q"
    using assms(2) by (simp add: above_def)
  then show ?thesis
    using patched_pointwise[OF d sub dp own assms(2)]
    by (simp add: description_patch_effect)
qed

text \<open>
  Claim C7: an apply-mode run over a catalog (identifiers in ascending order, each in the
  range a double holds exactly) completes; the store keeps what the run wrote
  (identifiers, titles and vendors are untouched); a second apply-mode run over the
  resulting catalog returns \<open>updated = 0\<close>, issues no write and changes nothing.
\<close>

theorem second_run_writes_nothing:
  assumes "ascending cat" "safe_ids cat" "0 < cap"
  shows "\<exists>k s1 s2.
           updateAllDescriptions (store_remote no_fault cap) True (start cat) = Some (Inr (Updated k), s1)
         \<and> map pid (world s1) = map pid cat \<and> map title (world s1) = map title cat
         \<and> map vendor (world s1) = map vendor cat
         \<and> updateAllDescriptions (store_remote no_fault cap) True (start (world s1)) = Some (Inr (Updated 0), s2)
         \<and> write_calls (calls s2) = [] \<and> world s2 = world s1"
proof -
  let ?f = "fold patch_product (concat (map (description_writes True) (above 0 cat)))"
  define g where "g = (\<lambda>q. if 0 < pid q \<and> \<not> same_description q
                          then q\<lparr>body_html := Some (buildDescription q)\<rparr> else q)"
  have g_keeps: "pid (g q) = pid q" "title (g q) = title q" "vendor (g q) = vendor q" for q
    by (simp_all add: g_def)
  have g_same: "same_description (g q)" if "0 < pid q" for q
    using that by (cases "same_description q") (simp_all add: g_def same_after_write)
  have P: "0 < min 250 cap"
    using assms(3) by simp
  from update_run[OF P assms(1), of True] obtain s1 where 1:
    "updateAllDescriptions (store_remote no_fault cap) True (start cat)
       = Some (Inr (Updated (length (filter (\<lambda>p. \<not> same_description p) (above 0 cat)))), s1)"
    "world s1 = map ?f cat"
    by auto
  have w1: "world s1 = map g cat"
    unfolding 1(2) g_def using first_run_world[OF assms(1)] by (intro map_cong) simp_all
  have ids: "map pid (world s1) = map pid cat" "map title (world s1) = map title cat"
    "map vendor (world s1) = map vendor cat"
    unfolding w1 by (simp_all add: comp_def g_keeps)
  have asc1: "ascending (world s1)"
    using assms(1) ids(1) by (simp only: ascending_def)
  have same: "same_description q" if "q \<in> set (above 0 (world s1))" for q
  proof -
    from that obtain q0 where q0: "q = g q0" and pos: "0 < pid q"
      unfolding w1 above_def by auto
    from pos have "0 < pid q0"
      unfolding q0 g_keeps .
    then show ?thesis
      unfolding q0 by (rule g_same)
  qed
  then have none: "filter (\<lambda>p. \<not> same_description p) (above 0 (world s1)) = []"
    by (simp add: filter_empty_conv)
  have "description_writes True q = []" if "q \<in> set (above 0 (world s1))" for q
    using same[OF that] by (simp add: description_writes_def)
  then have now: "concat (map (description_writes True) (above 0 (world s1))) = []"
    by simp
  from update_run[OF P asc1, of True] obtain s2 where 2:
    "updateAllDescriptions (store_remote no_fault cap) True (start (world s1)) = Some (Inr (Updated 0), s2)"
    "write_calls (calls s2) = []" "world s2 = world s1"
    unfolding none now by auto
  show ?thesis
    using 1(1) ids 2 by blast
qed

theorem second_run_writes_nothing_witness:
  "\<exists>k s1 s2.
      updateAllDescriptions (store_remote no_fault 250) True (start two_products) = Some (Inr (Updated k), s1)
    \<and> updateAllDescriptions (store_remote no_fault 250) True (start (world s1)) = Some (Inr (Updated 0), s2)
    \<and> write_calls (calls s2) = []"
  using second_run_writes_nothing[OF two_products_ok(1) two_products_safe(1), of 250] by fastforce

text \<open>
  The three operations on a store that fails one write, for the product \<open>p\<close> that comes
  after the products \<open>r1\<close>.
\<close>

lemma update_abort:
  assumes "0 < cap" "ascending cat"
    and "above 0 cat = r1 @ p # r2"
    and "\<not> same_description p"
    and "fault (ProductPath (pid p)) (put_init (BodyHtmlPatch (pid p) (buildDescription p))) = Some rep"
    and "failed rep"
    and "\<forall>k. fault (ProductsPage 250 k None) no_init = None"
    and "\<forall>q \<in> set r1. fault (ProductPath (pid q)) (put_init (BodyHtmlPatch (pid q) (buildDescription q))) = None"
  shows "\<exists>s'. updateAllDescriptions (store_remote fault cap) True (start cat)
             = Some (Inl (error_of (ProductPath (pid p)) (put_init (BodyHtmlPatch (pid p) (buildDescription p))) rep), s')
          \<and> last (calls s')
             = Call (ProductPath (pid p)) (put_init (BodyHtmlPatch (pid p) (buildDescription p))) rep
          \<and> write_calls (calls s')
             = map (\<lambda>q. ok_call (BodyHtmlPatch (pid q) (buildDescription q))) (filter (\<lambda>q. \<not> same_description q) r1)
               @ [Call (ProductPath (pid p)) (put_init (BodyHtmlPatch (pid p) (buildDescription p))) rep]
          \<and> world s'
             = map (\<lambda>q. if q \<in> set r1 \<and> \<not> same_description q
                        then q\<lparr>body_html := Some (buildDescription q)\<rparr> else q) cat
          \<and> visited s' = map pid (r1 @ [p])"
proof -
  let ?pt = "BodyHtmlPatch (pid p) (buildDescription p)"
  let ?wr = "description_writes True"
  have P: "0 < min 250 cap"
    using assms(1) by simp
  have nf: "\<And>k. fault (ProductsPage 250 k None) no_init = None"
    using assms(7) by simp
  have wp: "?wr p = [] @ ?pt # []"
    using assms(4) by (simp add: description_writes_def)
  have okW1: "\<forall>x \<in> set []. fault (path_of x) (put_init x) = None \<and> owned p x"
    by simp
  have bad: "fault (path_of ?pt) (put_init ?pt) = Some rep"
    using assms(5) by simp
  have asc: "ascending (world (start cat))"
    using assms(2) by simp
  have split: "above 0 (world (start cat)) = r1 @ p # r2"
    using assms(3) by simp
  have ok1: "writes_ok fault ?wr (world (start cat)) r1"
    using assms(8) by (simp add: writes_ok_def description_writes_def owned_def)
  from paginate_store_fail[of 250 cap fault None ?wr p "[]" ?pt "[]" rep "start cat" 0 r1 r2
      "description_acc True" "(0, [])", OF P nf wp okW1 bad assms(6) asc split ok1]
  obtain s' where s':
    "paginate (store_remote fault cap) (\<lambda>k. ProductsPage 250 k None)
        (update_product (store_remote fault cap) True) 0 (0, []) (start cat)
       = Some (Inl (error_of (path_of ?pt) (put_init ?pt) rep), s')"
    "world s' = map (fold patch_product (concat (map ?wr r1) @ [])) cat"
    "visited s' = map pid (r1 @ [p])"
    "write_calls (calls s') = map ok_call (concat (map ?wr r1) @ []) @ [Call (path_of ?pt) (put_init ?pt) rep]"
    "last (calls s') = Call (path_of ?pt) (put_init ?pt) rep"
    unfolding update_product_via by auto
  have run: "updateAllDescriptions (store_remote fault cap) True (start cat)
      = Some (Inl (error_of (ProductPath (pid p)) (put_init ?pt) rep), s')"
    unfolding updateAllDescriptions_def s'(1) by simp
  have d: "distinct (map pid cat)"
    by (rule ascending_distinct[OF assms(2)])
  then have "distinct cat"
    by (simp add: distinct_map)
  then have "distinct (above 0 cat)"
    by (simp add: above_def)
  then have dr: "distinct r1"
    unfolding assms(3) by simp
  have "set (above 0 cat) \<subseteq> set cat"
    by (auto simp: above_def)
  then have sub: "set r1 \<subseteq> set cat"
    unfolding assms(3) by simp
  have own: "\<forall>q \<in> set r1. \<forall>pt \<in> set (?wr q). \<forall>r \<in> set cat. pid r \<noteq> pid q \<longrightarrow> \<not> owned r pt"
    by (simp add: description_writes_def owned_def)
  have w: "world s' = map (\<lambda>q. if q \<in> set r1 \<and> \<not> same_description q
                        then q\<lparr>body_html := Some (buildDescription q)\<rparr> else q) cat"
    unfolding s'(2) using patched_pointwise[OF d sub dr own]
    by (intro map_cong) (simp_all add: description_patch_effect)
  have c: "write_calls (calls s')
      = map (\<lambda>q. ok_call (BodyHtmlPatch (pid q) (buildDescription q))) (filter (\<lambda>q. \<not> same_description q) r1)
        @ [Call (ProductPath (pid p)) (put_init ?pt) rep]"
    unfolding s'(4) by (simp add: concat_description_writes_apply comp_def)
  show ?thesis
    using run s'(5) c w s'(3) by (intro exI[of _ s']) simp
qed

lemma hide_abort:
  assumes "0 < cap" "ascending cat"
    and "above 0 cat = r1 @ p # r2"
    and "allZero p" "status p \<noteq> js ''draft''"
    and "fault (ProductPath (pid p)) (put_init (StatusPatch (pid p) (js ''draft''))) = Some rep"
    and "failed rep"
    and "\<forall>k. fault (ProductsPage 250 k (Some (js ''id,title,variants,status''))) no_init = None"
    and "\<forall>q \<in> set r1. fault (ProductPath (pid q)) (put_init (StatusPatch (pid q) (js ''draft''))) = None"
  shows "\<exists>s'. hideOutOfStock (store_remote fault cap) (start cat)
             = Some (Inl (error_of (ProductPath (pid p)) (put_init (StatusPatch (pid p) (js ''draft''))) rep), s')
          \<and> last (calls s') = Call (ProductPath (pid p)) (put_init (StatusPatch (pid p) (js ''draft''))) rep
          \<and> write_calls (calls s')
             = map (\<lambda>q. ok_call (StatusPatch (pid q) (js ''draft'')))
                 (filter (\<lambda>q. allZero q \<and> status q \<noteq> js ''draft'') r1)
               @ [Call (ProductPath (pid p)) (put_init (StatusPatch (pid p) (js ''draft''))) rep]
          \<and> world s'
             = map (\<lambda>q. if q \<in> set r1 \<and> allZero q \<and> status q \<noteq> js ''draft''
                        then q\<lparr>status := js ''draft''\<rparr> else q) cat
          \<and> visited s' = map pid (r1 @ [p])"
proof -
  let ?pt = "StatusPatch (pid p) (js ''draft'')"
  let ?f = "Some (js ''id,title,variants,status'')"
  have P: "0 < min 250 cap"
    using assms(1) by simp
  have nf: "\<And>k. fault (ProductsPage 250 k ?f) no_init = None"
    using assms(8) by simp
  have wp: "hide_writes p = [] @ ?pt # []"
    using assms(4,5) by (simp add: hide_writes_def)
  have okW1: "\<forall>x \<in> set []. fault (path_of x) (put_init x) = None \<and> owned p x"
    by simp
  have bad: "fault (path_of ?pt) (put_init ?pt) = Some rep"
    using assms(6) by simp
  have asc: "ascending (world (start cat))"
    using assms(2) by simp
  have split: "above 0 (world (start cat)) = r1 @ p # r2"
    using assms(3) by simp
  have ok1: "writes_ok fault hide_writes (world (start cat)) r1"
    using assms(9) by (simp add: writes_ok_def hide_writes_def owned_def)
  from paginate_store_fail[of 250 cap fault ?f hide_writes p "[]" ?pt "[]" rep "start cat" 0 r1 r2
      hide_acc 0, OF P nf wp okW1 bad assms(7) asc split ok1]
  obtain s' where s':
    "paginate (store_remote fault cap) (\<lambda>k. ProductsPage 250 k ?f)
        (hide_product (store_remote fault cap)) 0 0 (start cat)
       = Some (Inl (error_of (path_of ?pt) (put_init ?pt) rep), s')"
    "world s' = map (fold patch_product (concat (map hide_writes r1) @ [])) cat"
    "visited s' = map pid (r1 @ [p])"
    "write_calls (calls s') = map ok_call (concat (map hide_writes r1) @ []) @ [Call (path_of ?pt) (put_init ?pt) rep]"
    "last (calls s') = Call (path_of ?pt) (put_init ?pt) rep"
    unfolding hide_product_via by auto
  have run: "hideOutOfStock (store_remote fault cap) (start cat)
      = Some (Inl (error_of (ProductPath (pid p)) (put_init ?pt) rep), s')"
    unfolding hideOutOfStock_def s'(1) by simp
  have d: "distinct (map pid cat)"
    by (rule ascending_distinct[OF assms(2)])
  then have "distinct cat"
    by (simp add: distinct_map)
  then have "distinct (above 0 cat)"
    by (simp add: above_def)
  then have dr: "distinct r1"
    unfolding assms(3) by simp
  have "set (above 0 cat) \<subseteq> set cat"
    by (auto simp: above_def)
  then have sub: "set r1 \<subseteq> set cat"
    unfolding assms(3) by simp
  have own: "\<forall>q \<in> set r1. \<forall>pt \<in> set (hide_writes q). \<forall>r \<in> set cat. pid r \<noteq> pid q \<longrightarrow> \<not> owned r pt"
    by (simp add: hide_writes_def owned_def)
  have w: "world s' = map (\<lambda>q. if q \<in> set r1 \<and> allZero q \<and> status q \<noteq> js ''draft''
                        then q\<lparr>status := js ''draft''\<rparr> else q) cat"
    unfolding s'(2) using patched_pointwise[OF d sub dr own]
    by (intro map_cong) (simp_all add: hide_patch_effect)
  have c: "write_calls (calls s')
      = map (\<lambda>q. ok_call (StatusPatch (pid q) (js ''draft''))) (filter (\<lambda>q. allZero q \<and> status q \<noteq> js ''draft'') r1)
        @ [Call (ProductPath (pid p)) (put_init ?pt) rep]"
    unfolding s'(4) by (simp add: concat_hide_writes comp_def)
  show ?thesis
    using run s'(5) c w s'(3) by (intro exI[of _ s']) simp
qed

lemma reprice_abort:
  assumes "0 < cap" "ascending cat" "variants_apart cat"
    and "above 0 cat = r1 @ p # r2"
    and "variants_of p = us @ v # ws"
    and "isFinite (parseFloat (price v))"
    and "toFixed 2 (num_times (parseFloat (price v)) (factor percent)) \<noteq> price v"
    and "fault (VariantPath (vid v))
           (put_init (PricePatch (vid v) (toFixed 2 (num_times (parseFloat (price v)) (factor percent))))) = Some rep"
    and "failed rep"
    and "\<forall>k. fault (ProductsPage 100 k (Some (js ''id,title,variants''))) no_init = None"
    and "\<forall>x \<in> set (reprice_patches (factor percent) (concat (map variants_of r1) @ us)).
           fault (path_of x) (put_init x) = None"
  shows "\<exists>s'. simpleReprice (store_remote fault cap) percent (start cat)
             = Some (Inl (error_of (VariantPath (vid v))
                   (put_init (PricePatch (vid v) (toFixed 2 (num_times (parseFloat (price v)) (factor percent))))) rep), s')
          \<and> last (calls s')
             = Call (VariantPath (vid v))
                 (put_init (PricePatch (vid v) (toFixed 2 (num_times (parseFloat (price v)) (factor percent))))) rep
          \<and> write_calls (calls s')
             = map ok_call (reprice_patches (factor percent) (concat (map variants_of r1) @ us))
               @ [Call (VariantPath (vid v))
                    (put_init (PricePatch (vid v) (toFixed 2 (num_times (parseFloat (price v)) (factor percent))))) rep]
          \<and> world s'
             = map (fold patch_product (reprice_patches (factor percent) (concat (map variants_of r1) @ us))) cat
          \<and> visited s' = map pid (r1 @ [p])"
proof -
  let ?fac = "factor percent"
  let ?pt = "PricePatch (vid v) (toFixed 2 (num_times (parseFloat (price v)) ?fac))"
  let ?f = "Some (js ''id,title,variants'')"
  let ?W1 = "reprice_patches ?fac us"
  let ?W2 = "reprice_patches ?fac ws"
  have P: "0 < min 100 cap"
    using assms(1) by simp
  have nf: "\<And>k. fault (ProductsPage 100 k ?f) no_init = None"
    using assms(10) by simp
  have "reprice_patches ?fac (v # ws) = ?pt # ?W2"
    using assms(6,7) by (simp add: reprice_patches_def)
  then have wp: "reprice_writes ?fac p = ?W1 @ ?pt # ?W2"
    unfolding reprice_writes_def assms(5) reprice_patches_append by simp
  have all: "reprice_patches ?fac (concat (map variants_of r1) @ us)
      = concat (map (reprice_writes ?fac) r1) @ ?W1"
    by (simp add: reprice_patches_append concat_reprice_writes)
  have "set ?W1 \<subseteq> set (reprice_patches ?fac (variants_of p))"
    unfolding assms(5) reprice_patches_append by simp
  then have okW1: "\<forall>x \<in> set ?W1. fault (path_of x) (put_init x) = None \<and> owned p x"
    using assms(11) reprice_patch_owned unfolding all by auto
  have bad: "fault (path_of ?pt) (put_init ?pt) = Some rep"
    using assms(8) by simp
  have asc: "ascending (world (start cat))"
    using assms(2) by simp
  have split: "above 0 (world (start cat)) = r1 @ p # r2"
    using assms(4) by simp
  have "set (above 0 cat) \<subseteq> set cat"
    by (auto simp: above_def)
  then have sub: "set r1 \<subseteq> set cat"
    unfolding assms(4) by simp
  have "\<forall>q \<in> set r1. \<forall>x \<in> set (reprice_writes ?fac q). fault (path_of x) (put_init x) = None"
    using assms(11) unfolding all by auto
  with assms(3) sub have "writes_ok fault (reprice_writes ?fac) cat r1"
    by (rule reprice_writes_ok)
  then have ok1: "writes_ok fault (reprice_writes ?fac) (world (start cat)) r1"
    by simp
  from paginate_store_fail[of 100 cap fault ?f "reprice_writes ?fac" p ?W1 ?pt ?W2 rep "start cat" 0 r1 r2
      "reprice_acc ?fac" 0, OF P nf wp okW1 bad assms(9) asc split ok1]
  obtain s' where s':
    "paginate (store_remote fault cap) (\<lambda>k. ProductsPage 100 k ?f)
        (reprice_product (store_remote fault cap) ?fac) 0 0 (start cat)
       = Some (Inl (error_of (path_of ?pt) (put_init ?pt) rep), s')"
    "world s' = map (fold patch_product (concat (map (reprice_writes ?fac) r1) @ ?W1)) cat"
    "visited s' = map pid (r1 @ [p])"
    "write_calls (calls s') = map ok_call (concat (map (reprice_writes ?fac) r1) @ ?W1)
        @ [Call (path_of ?pt) (put_init ?pt) rep]"
    "last (calls s') = Call (path_of ?pt) (put_init ?pt) rep"
    unfolding reprice_product_via_writes by auto
  have run: "simpleReprice (store_remote fault cap) percent (start cat)
      = Some (Inl (error_of (VariantPath (vid v)) (put_init ?pt) rep), s')"
    unfolding simpleReprice_def s'(1) by simp
  show ?thesis
    using run s'(2-5) unfolding all by (intro exI[of _ s']) simp
qed

text \<open>
  Claim C4: the remote fails one write (it rejects, or answers outside 200..299) while the
  page reads and the writes before it succeed; the catalog has its identifiers in
  ascending order, each in the range a double holds exactly. For each of the three
  operations (the apply-mode description rewrite failing on product \<open>p\<close>, the stock-hide
  run failing on product \<open>p\<close>, the reprice run failing on variant \<open>v\<close> of product \<open>p\<close>) the
  run returns that call's error and no Run Result; the failing call is the last call of
  the run, so no write follows it; the writes issued are the earlier ones, then the
  failing one; and the store holds exactly the earlier writes: nothing is rolled back,
  and \<open>p\<close> and the products after it are as they were, but for the variants of \<open>p\<close>
  repriced before \<open>v\<close>. And whatever the remote does and whatever the identifiers are:
  when a run of one of the three operations returns, a call of that run that failed is
  its last call, and the outcome of the run is the error of that call, not a Run Result.
\<close>

theorem abort_on_failed_write:
  assumes "0 < cap" "ascending cat" "safe_ids cat"
    and "above 0 cat = r1 @ p # r2"
    and "failed rep"
    and "\<forall>limit k flds. fault (ProductsPage limit k flds) no_init = None"
  shows
    "(\<not> same_description p
        \<and> fault (ProductPath (pid p)) (put_init (BodyHtmlPatch (pid p) (buildDescription p))) = Some rep
        \<and> (\<forall>q \<in> set r1. fault (ProductPath (pid q)) (put_init (BodyHtmlPatch (pid q) (buildDescription q))) = None)
      \<longrightarrow> (\<exists>s'. updateAllDescriptions (store_remote fault cap) True (start cat)
                 = Some (Inl (error_of (ProductPath (pid p))
                       (put_init (BodyHtmlPatch (pid p) (buildDescription p))) rep), s')
              \<and> last (calls s')
                 = Call (ProductPath (pid p)) (put_init (BodyHtmlPatch (pid p) (buildDescription p))) rep
              \<and> write_calls (calls s')
                 = map (\<lambda>q. ok_call (BodyHtmlPatch (pid q) (buildDescription q)))
                     (filter (\<lambda>q. \<not> same_description q) r1)
                   @ [Call (ProductPath (pid p)) (put_init (BodyHtmlPatch (pid p) (buildDescription p))) rep]
              \<and> world s'
                 = map (\<lambda>q. if q \<in> set r1 \<and> \<not> same_description q
                            then q\<lparr>body_html := Some (buildDescription q)\<rparr> else q) cat
              \<and> visited s' = map pid (r1 @ [p])))
   \<and> (allZero p \<and> status p \<noteq> js ''draft''
        \<and> fault (ProductPath (pid p)) (put_init (StatusPatch (pid p) (js ''draft''))) = Some rep
        \<and> (\<forall>q \<in> set r1. fault (ProductPath (pid q)) (put_init (StatusPatch (pid q) (js ''draft''))) = None)
      \<longrightarrow> (\<exists>s'. hideOutOfStock (store_remote fault cap) (start cat)
                 = Some (Inl (error_of (ProductPath (pid p)) (put_init (StatusPatch (pid p) (js ''draft''))) rep), s')
              \<and> last (calls s') = Call (ProductPath (pid p)) (put_init (StatusPatch (pid p) (js ''draft''))) rep
              \<and> write_calls (calls s')
                 = map (\<lambda>q. ok_call (StatusPatch (pid q) (js ''draft'')))
                     (filter (\<lambda>q. allZero q \<and> status q \<noteq> js ''draft'') r1)
                   @ [Call (ProductPath (pid p)) (put_init (StatusPatch (pid p) (js ''draft''))) rep]
              \<and> world s'
                 = map (\<lambda>q. if q \<in> set r1 \<and> allZero q \<and> status q \<noteq> js ''draft''
                            then q\<lparr>status := js ''draft''\<rparr> else q) cat
              \<and> visited s' = map pid (r1 @ [p])))
   \<and> (variants_apart cat
        \<and> variants_of p = us @ v # ws
        \<and> isFinite (parseFloat (price v))
        \<and> toFixed 2 (num_times (parseFloat (price v)) (factor percent)) \<noteq> price v
        \<and> fault (VariantPath (vid v))
            (put_init (PricePatch (vid v) (toFixed 2 (num_times (parseFloat (price v)) (factor percent))))) = Some rep
        \<and> (\<forall>x \<in> set (reprice_patches (factor percent) (concat (map variants_of r1) @ us)).
              fault (path_of x) (put_init x) = None)
      \<longrightarrow> (\<exists>s'. simpleReprice (store_remote fault cap) percent (start cat)
                 = Some (Inl (error_of (VariantPath (vid v))
                       (put_init (PricePatch (vid v) (toFixed 2 (num_times (parseFloat (price v)) (factor percent))))) rep), s')
              \<and> last (calls s')
                 = Call (VariantPath (vid v))
                     (put_init (PricePatch (vid v) (toFixed 2 (num_times (parseFloat (price v)) (factor percent))))) rep
              \<and> write_calls (calls s')
                 = map ok_call (reprice_patches (factor percent) (concat (map variants_of r1) @ us))
                   @ [Call (VariantPath (vid v))
                        (put_init (PricePatch (vid v) (toFixed 2 (num_times (parseFloat (price v)) (factor percent))))) rep]
              \<and> world s'
                 = map (fold patch_product (reprice_patches (factor percent) (concat (map variants_of r1) @ us))) cat
              \<and> visited s' = map pid (r1 @ [p])))
   \<and> ((updateAllDescriptions remote ap t = Some (outcome, t')
          \<or> hideOutOfStock remote t = Some (outcome, t')
          \<or> simpleReprice remote percent' t = Some (outcome, t'))
        \<and> length (calls t) \<le> i \<and> i < length (calls t') \<and> calls t' ! i = Call pa ini rp \<and> failed rp
      \<longrightarrow> Suc i = length (calls t') \<and> outcome = Inl (error_of pa ini rp))"
proof (intro conjI impI)
  assume a: "\<not> same_description p
        \<and> fault (ProductPath (pid p)) (put_init (BodyHtmlPatch (pid p) (buildDescription p))) = Some rep
        \<and> (\<forall>q \<in> set r1. fault (ProductPath (pid q)) (put_init (BodyHtmlPatch (pid q) (buildDescription q))) = None)"
  have pg: "\<forall>k. fault (ProductsPage 250 k None) no_init = None"
    using assms(6) by simp
  from a show "\<exists>s'. updateAllDescriptions (store_remote fault cap) True (start cat)
                 = Some (Inl (error_of (ProductPath (pid p))
                       (put_init (BodyHtmlPatch (pid p) (buildDescription p))) rep), s')
              \<and> last (calls s')
                 = Call (ProductPath (pid p)) (put_init (BodyHtmlPatch (pid p) (buildDescription p))) rep
              \<and> write_calls (calls s')
                 = map (\<lambda>q. ok_call (BodyHtmlPatch (pid q) (buildDescription q)))
                     (filter (\<lambda>q. \<not> same_description q) r1)
                   @ [Call (ProductPath (pid p)) (put_init (BodyHtmlPatch (pid p) (buildDescription p))) rep]
              \<and> world s'
                 = map (\<lambda>q. if q \<in> set r1 \<and> \<not> same_description q
                            then q\<lparr>body_html := Some (buildDescription q)\<rparr> else q) cat
              \<and> visited s' = map pid (r1 @ [p])"
    by (intro update_abort[where fault = fault, OF assms(1,2,4) _ _ assms(5) pg]) simp_all
next
  assume a: "allZero p \<and> status p \<noteq> js ''draft''
        \<and> fault (ProductPath (pid p)) (put_init (StatusPatch (pid p) (js ''draft''))) = Some rep
        \<and> (\<forall>q \<in> set r1. fault (ProductPath (pid q)) (put_init (StatusPatch (pid q) (js ''draft''))) = None)"
  have pg: "\<forall>k. fault (ProductsPage 250 k (Some (js ''id,title,variants,status''))) no_init = None"
    using assms(6) by simp
  from a show "\<exists>s'. hideOutOfStock (store_remote fault cap) (start cat)
                 = Some (Inl (error_of (ProductPath (pid p)) (put_init (StatusPatch (pid p) (js ''draft''))) rep), s')
              \<and> last (calls s') = Call (ProductPath (pid p)) (put_init (StatusPatch (pid p) (js ''draft''))) rep
              \<and> write_calls (calls s')
                 = map (\<lambda>q. ok_call (StatusPatch (pid q) (js ''draft'')))
                     (filter (\<lambda>q. allZero q \<and> status q \<noteq> js ''draft'') r1)
                   @ [Call (ProductPath (pid p)) (put_init (StatusPatch (pid p) (js ''draft''))) rep]
              \<and> world s'
                 = map (\<lambda>q. if q \<in> set r1 \<and> allZero q \<and> status q \<noteq> js ''draft''
                            then q\<lparr>status := js ''draft''\<rparr> else q) cat
              \<and> visited s' = map pid (r1 @ [p])"
    by (intro hide_abort[where fault = fault, OF assms(1,2,4) _ _ _ assms(5) pg]) simp_all
next
  assume a: "variants_apart cat
        \<and> variants_of p = us @ v # ws
        \<and> isFinite (parseFloat (price v))
        \<and> toFixed 2 (num_times (parseFloat (price v)) (factor percent)) \<noteq> price v
        \<and> fault (VariantPath (vid v))
            (put_init (PricePatch (vid v) (toFixed 2 (num_times (parseFloat (price v)) (factor percent))))) = Some rep
        \<and> (\<forall>x \<in> set (reprice_patches (factor percent) (concat (map variants_of r1) @ us)).
              fault (path_of x) (put_init x) = None)"
  have pg: "\<forall>k. fault (ProductsPage 100 k (Some (js ''id,title,variants''))) no_init = None"
    using assms(6) by simp
  from a show "\<exists>s'. simpleReprice (store_remote fault cap) percent (start cat)
                 = Some (Inl (error_of (VariantPath (vid v))
                       (put_init (PricePatch (vid v) (toFixed 2 (num_times (parseFloat (price v)) (factor percent))))) rep), s')
              \<and> last (calls s')
                 = Call (VariantPath (vid v))
                     (put_init (PricePatch (vid v) (toFixed 2 (num_times (parseFloat (price v)) (factor percent))))) rep
              \<and> write_calls (calls s')
                 = map ok_call (reprice_patches (factor percent) (concat (map variants_of r1) @ us))
                   @ [Call (VariantPath (vid v))
                        (put_init (PricePatch (vid v) (toFixed 2 (num_times (parseFloat (price v)) (factor percent))))) rep]
              \<and> world s'
                 = map (fold patch_product (reprice_patches (factor percent) (concat (map variants_of r1) @ us))) cat
              \<and> visited s' = map pid (r1 @ [p])"
    by (intro reprice_abort[where fault = fault, OF assms(1,2) _ assms(4) _ _ _ _ assms(5) pg]) simp_all
next
  assume a: "(updateAllDescriptions remote ap t = Some (outcome, t')
          \<or> hideOutOfStock remote t = Some (outcome, t')
          \<or> simpleReprice remote percent' t = Some (outcome, t'))
        \<and> length (calls t) \<le> i \<and> i < length (calls t') \<and> calls t' ! i = Call pa ini rp \<and> failed rp"
  then show "Suc i = length (calls t')"
    using failing_call_ends_run[of remote ap t outcome t' percent' i pa ini rp] by blast
next
  assume a: "(updateAllDescriptions remote ap t = Some (outcome, t')
          \<or> hideOutOfStock remote t = Some (outcome, t')
          \<or> simpleReprice remote percent' t = Some (outcome, t'))
        \<and> length (calls t) \<le> i \<and> i < length (calls t') \<and> calls t' ! i = Call pa ini rp \<and> failed rp"
  then show "outcome = Inl (error_of pa ini rp)"
    using failing_call_ends_run[of remote ap t outcome t' percent' i pa ini rp] by blast
qed

theorem abort_on_failed_write_witness:
  "(\<exists>s'. updateAllDescriptions (store_remote flaky 250) True (start two_products)
          = Some (Inl (FetchError (js ''ECONNRESET'')), s')
       \<and> last (calls s')
          = Call (ProductPath 3) (put_init (BodyHtmlPatch 3 (buildDescription (plain 3 ''Leash''))))
              (Rejected (js ''ECONNRESET''))
       \<and> length (write_calls (calls s')) = 2
       \<and> world s' = [(plain 1 ''Bowl'')\<lparr>body_html := Some (buildDescription (plain 1 ''Bowl''))\<rparr>,
                      plain 3 ''Leash'']
       \<and> visited s' = [1, 3])
   \<and> (\<exists>s'. hideOutOfStock (store_remote flaky 250) (start [sold_out, in_stock, gone])
          = Some (Inl (FetchError (js ''ECONNRESET'')), s')
       \<and> last (calls s')
          = Call (ProductPath 3) (put_init (StatusPatch 3 (js ''draft''))) (Rejected (js ''ECONNRESET''))
       \<and> write_calls (calls s')
          = [ok_call (StatusPatch 1 (js ''draft'')),
             Call (ProductPath 3) (put_init (StatusPatch 3 (js ''draft''))) (Rejected (js ''ECONNRESET''))]
       \<and> world s' = [sold_out\<lparr>status := js ''draft''\<rparr>, in_stock, gone]
       \<and> visited s' = [1, 2, 3])
   \<and> (\<exists>s'. simpleReprice (store_remote flaky 250) (Finite 10) (start two_priced)
          = Some (Inl (FetchError (js ''ECONNRESET'')), s')
       \<and> last (calls s')
          = Call (VariantPath 31) (put_init (PricePatch 31 (js ''11.00''))) (Rejected (js ''ECONNRESET''))
       \<and> write_calls (calls s')
          = [ok_call (PricePatch 11 (js ''11.00'')),
             Call (VariantPath 31) (put_init (PricePatch 31 (js ''11.00''))) (Rejected (js ''ECONNRESET''))]
       \<and> world s' = [priced 1 ''11.00'', priced 3 ''10'']
       \<and> visited s' = [1, 3])"
proof -
  let ?rej = "Rejected (js ''ECONNRESET'')"
  have c: "0 < (250::nat)"
    by simp
  have f: "failed ?rej"
    by (simp add: failed_def)
  have pg: "\<forall>limit k flds. flaky (ProductsPage limit k flds) no_init = None"
    by (simp add: flaky_def)
  have first: "\<exists>s'. updateAllDescriptions (store_remote flaky 250) True (start two_products)
          = Some (Inl (FetchError (js ''ECONNRESET'')), s')
       \<and> last (calls s')
          = Call (ProductPath 3) (put_init (BodyHtmlPatch 3 (buildDescription (plain 3 ''Leash'')))) ?rej
       \<and> length (write_calls (calls s')) = 2
       \<and> world s' = [(plain 1 ''Bowl'')\<lparr>body_html := Some (buildDescription (plain 1 ''Bowl''))\<rparr>,
                      plain 3 ''Leash'']
       \<and> visited s' = [1, 3]"
  proof -
    let ?a = "plain 1 ''Bowl''" and ?b = "plain 3 ''Leash''"
    have ne: "?a \<noteq> ?b"
      by (simp add: plain_def mk_product_def)
    have 1: "above 0 two_products = [?a] @ ?b # []"
      by (simp add: above_def two_products_def plain_def mk_product_def)
    have h: "\<not> same_description ?b
        \<and> flaky (ProductPath (pid ?b)) (put_init (BodyHtmlPatch (pid ?b) (buildDescription ?b))) = Some ?rej
        \<and> (\<forall>q \<in> set [?a]. flaky (ProductPath (pid q)) (put_init (BodyHtmlPatch (pid q) (buildDescription q))) = None)"
      by (simp add: flaky_def plain_simps plain_needs)
    from abort_on_failed_write[where fault = flaky, OF c two_products_ok(1) two_products_safe(1) 1 f pg,
        THEN conjunct1, THEN mp, OF h] ne
    show ?thesis
      by (auto simp: error_of_def two_products_def plain_needs plain_simps)
  qed
  have second: "\<exists>s'. hideOutOfStock (store_remote flaky 250) (start [sold_out, in_stock, gone])
          = Some (Inl (FetchError (js ''ECONNRESET'')), s')
       \<and> last (calls s')
          = Call (ProductPath 3) (put_init (StatusPatch 3 (js ''draft''))) ?rej
       \<and> write_calls (calls s')
          = [ok_call (StatusPatch 1 (js ''draft'')),
             Call (ProductPath 3) (put_init (StatusPatch 3 (js ''draft''))) ?rej]
       \<and> world s' = [sold_out\<lparr>status := js ''draft''\<rparr>, in_stock, gone]
       \<and> visited s' = [1, 2, 3]"
  proof -
    let ?cat = "[sold_out, in_stock, gone]"
    have asc: "ascending ?cat"
      by (simp add: ascending_def hide_examples)
    have safe: "safe_ids ?cat"
      by (simp add: safe_ids_def sold_out_def in_stock_def gone_def mk_product_def mk_variant_def variants_of_def)
    have 1: "above 0 ?cat = [sold_out, in_stock] @ gone # []"
      by (simp add: above_def hide_examples)
    have ne: "gone \<noteq> sold_out" "gone \<noteq> in_stock"
      by (simp_all add: sold_out_def in_stock_def gone_def mk_product_def)
    have h: "allZero gone \<and> status gone \<noteq> js ''draft''
        \<and> flaky (ProductPath (pid gone)) (put_init (StatusPatch (pid gone) (js ''draft''))) = Some ?rej
        \<and> (\<forall>q \<in> set [sold_out, in_stock].
              flaky (ProductPath (pid q)) (put_init (StatusPatch (pid q) (js ''draft''))) = None)"
      using hide_examples(3) by (simp add: flaky_def hide_examples(4-6))
    from abort_on_failed_write[where fault = flaky, OF c asc safe 1 f pg,
        THEN conjunct2, THEN conjunct1, THEN mp, OF h] ne
    show ?thesis
      by (auto simp: error_of_def hide_examples)
  qed
  have third: "\<exists>s'. simpleReprice (store_remote flaky 250) (Finite 10) (start two_priced)
          = Some (Inl (FetchError (js ''ECONNRESET'')), s')
       \<and> last (calls s')
          = Call (VariantPath 31) (put_init (PricePatch 31 (js ''11.00''))) ?rej
       \<and> write_calls (calls s')
          = [ok_call (PricePatch 11 (js ''11.00'')),
             Call (VariantPath 31) (put_init (PricePatch 31 (js ''11.00''))) ?rej]
       \<and> world s' = [priced 1 ''11.00'', priced 3 ''10'']
       \<and> visited s' = [1, 3]"
  proof -
    let ?v = "mk_variant 31 ''10'' (Some 3) (JStr (js ''shopify''))"
    have 1: "above 0 two_priced = [priced 1 ''10''] @ priced 3 ''10'' # []"
      by (simp add: above_def two_priced_def priced_simps)
    have ne: "js ''11.00'' \<noteq> js ''10''"
      by (simp add: js_def)
    have up: "toFixed 2 (num_times (parseFloat (price ?v)) (factor (Finite 10))) = js ''11.00''"
      by (simp add: mk_variant_def parse_ten ten_percent_up)
    have pv: "price ?v = js ''10''" "vid ?v = 31"
      by (simp_all add: mk_variant_def)
    have earlier: "reprice_patches (factor (Finite 10)) (concat (map variants_of [priced 1 ''10'']) @ [])
        = [PricePatch 11 (js ''11.00'')]"
      using ten_percent_patches_priced[of 1] by simp
    have h: "variants_apart two_priced
        \<and> variants_of (priced 3 ''10'') = [] @ ?v # []
        \<and> isFinite (parseFloat (price ?v))
        \<and> toFixed 2 (num_times (parseFloat (price ?v)) (factor (Finite 10))) \<noteq> price ?v
        \<and> flaky (VariantPath (vid ?v))
            (put_init (PricePatch (vid ?v) (toFixed 2 (num_times (parseFloat (price ?v)) (factor (Finite 10)))))) = Some ?rej
        \<and> (\<forall>x \<in> set (reprice_patches (factor (Finite 10)) (concat (map variants_of [priced 1 ''10'']) @ [])).
              flaky (path_of x) (put_init x) = None)"
      unfolding up earlier pv using two_priced_ok(4) ne
      by (simp add: priced_simps parse_ten isFinite_def flaky_def ten_percent_up)
    have w: "map (fold patch_product [PricePatch 11 (js ''11.00'')]) two_priced = [priced 1 ''11.00'', priced 3 ''10'']"
      by (simp add: two_priced_def priced_def mk_product_def mk_variant_def)
    from abort_on_failed_write[where fault = flaky, OF c two_priced_ok(1,3) 1 f pg,
        THEN conjunct2, THEN conjunct2, THEN conjunct1, THEN mp, OF h]
    show ?thesis
      unfolding up earlier pv w by (simp add: error_of_def priced_simps parse_ten ten_percent_up)
  qed
  show ?thesis
    using first second third by blast
qed

text \<open>
  Claim C9: a variant whose price string does not parse as a finite number (\<open>parseFloat\<close>
  gives NaN or an infinity) is passed over: the variant loop, and so the step on its
  product, does exactly what it does on the product without that variant. No call is
  issued for it, the count is not changed and no error is raised; the variant after it is
  processed (when it needs a new price, the write for it is the next call), and after a
  product whose only variant is unparsable the product loop goes on with the next
  product. On a store holding a product with prices \<open>10\<close>, \<open>abc\<close>, \<open>10\<close> and a second
  product with price \<open>10\<close>, the 10% run rewrites the three parsable prices to \<open>11.00\<close>,
  leaves \<open>abc\<close> and returns \<open>changed = 3\<close>.
\<close>

theorem unparsable_price_is_skipped:
  assumes "\<not> isFinite (parseFloat (price v))"
  shows "reprice_variants remote fac (v # ws) changed s = reprice_variants remote fac ws changed s
       \<and> reprice_variants remote fac (us @ v # ws) changed s = reprice_variants remote fac (us @ ws) changed s
       \<and> reprice_product remote fac changed (p\<lparr>variants := Some (us @ v # ws)\<rparr>) s
         = reprice_product remote fac changed (p\<lparr>variants := Some (us @ ws)\<rparr>) s
       \<and> reprice_variants remote fac [v] changed s = (Inr changed, s)
       \<and> (isFinite (parseFloat (price w)) \<and> toFixed 2 (num_times (parseFloat (price w)) fac) \<noteq> price w \<longrightarrow>
            reprice_variants remote fac (v # w # ws) changed s
            = (case shopify remote (VariantPath (vid w))
                      (put_init (PricePatch (vid w) (toFixed 2 (num_times (parseFloat (price w)) fac)))) s of
                 (Inl e, s') \<Rightarrow> (Inl e, s')
               | (Inr d, s') \<Rightarrow> reprice_variants remote fac ws (changed + 1) s'))
       \<and> for_products (reprice_product remote fac) (p\<lparr>variants := Some [v]\<rparr> # ps) (sid, changed) s
         = for_products (reprice_product remote fac) ps (pid p, changed) (s\<lparr>visited := visited s @ [pid p]\<rparr>)
       \<and> (\<exists>s'. simpleReprice (store_remote no_fault 250) (Finite 10) (start [mixed, priced 2 ''10''])
                 = Some (Inr (Changed 3), s')
              \<and> write_calls (calls s')
                 = [ok_call (PricePatch 11 (js ''11.00'')), ok_call (PricePatch 13 (js ''11.00'')),
                    ok_call (PricePatch 21 (js ''11.00''))]
              \<and> world s' = [mixed_after, priced 2 ''11.00'']
              \<and> visited s' = [1, 2])"
proof -
  have 1: "reprice_variants remote fac (v # ws) c t = reprice_variants remote fac ws c t" for c t ws
    using assms by simp
  have 2: "reprice_variants remote fac (us @ v # ws) c t = reprice_variants remote fac (us @ ws) c t" for c t
  proof (induction us arbitrary: c t)
    case Nil
    show ?case by (simp only: append_Nil 1)
  next
    case (Cons u us)
    show ?case
      by (simp add: Cons.IH Let_def split: prod.splits sum.splits)
  qed
  have 3: "reprice_variants remote fac [v] c t = (Inr c, t)" for c t
    unfolding 1 by simp
  have 4: "isFinite (parseFloat (price w)) \<and> toFixed 2 (num_times (parseFloat (price w)) fac) \<noteq> price w \<longrightarrow>
            reprice_variants remote fac (v # w # ws) changed s
            = (case shopify remote (VariantPath (vid w))
                      (put_init (PricePatch (vid w) (toFixed 2 (num_times (parseFloat (price w)) fac)))) s of
                 (Inl e, s') \<Rightarrow> (Inl e, s')
               | (Inr d, s') \<Rightarrow> reprice_variants remote fac ws (changed + 1) s')"
    unfolding 1 by (simp add: Let_def)
  have 5: "for_products (reprice_product remote fac) (p\<lparr>variants := Some [v]\<rparr> # ps) (sid, changed) s
         = for_products (reprice_product remote fac) ps (pid p, changed) (s\<lparr>visited := visited s @ [pid p]\<rparr>)"
    by (simp add: reprice_product_def 3 del: reprice_variants.simps)
  show ?thesis
    using 1 2 3 4 5 mixed_run by (simp add: reprice_product_def)
qed

theorem unparsable_price_is_skipped_witness:
  "reprice_variants (store_remote no_fault 250) (factor (Finite 10))
      ([mk_variant 11 ''10'' (Some 3) (JBool True)] @ mk_variant 12 ''abc'' (Some 3) (JBool True)
         # [mk_variant 13 ''10'' (Some 3) (JBool True)])
      0 (start [mixed])
   = (Inr 2, \<lparr>world = [mixed_after],
              calls = [ok_call (PricePatch 11 (js ''11.00'')), ok_call (PricePatch 13 (js ''11.00''))],
              visited = []\<rparr>)"
proof -
  let ?R = "store_remote no_fault 250"
  let ?a = "mk_variant 11 ''10'' (Some 3) (JBool True)"
  let ?b = "mk_variant 12 ''abc'' (Some 3) (JBool True)"
  let ?c = "mk_variant 13 ''10'' (Some 3) (JBool True)"
  have nf: "\<not> isFinite (parseFloat (price ?b))"
    by (simp add: mk_variant_def parse_abc isFinite_def)
  have skip: "reprice_variants ?R (factor (Finite 10)) ([?a] @ ?b # [?c]) 0 (start [mixed])
      = reprice_variants ?R (factor (Finite 10)) ([?a] @ [?c]) 0 (start [mixed])"
    using unparsable_price_is_skipped[OF nf] by blast
  have ne: "js ''11.00'' \<noteq> js ''10''"
    by (simp add: js_def)
  have rp: "reprice_patches (factor (Finite 10)) ([?a] @ [?c]) = [PricePatch 11 (js ''11.00''), PricePatch 13 (js ''11.00'')]"
    by (simp add: reprice_patches_def mk_variant_def parse_ten isFinite_def ten_percent_up ne)
  have own: "\<forall>pt \<in> set [PricePatch 11 (js ''11.00''), PricePatch 13 (js ''11.00'')].
      no_fault (path_of pt) (put_init pt) = None \<and> (\<exists>q \<in> set (world (start [mixed])). owned q pt)"
    by (simp add: no_fault_def owned_def mixed_def mk_product_def mk_variant_def variants_of_def)
  have w: "map (fold patch_product [PricePatch 11 (js ''11.00''), PricePatch 13 (js ''11.00'')]) [mixed]
      = [mixed_after]"
    by (simp add: mixed_def mixed_after_def mk_product_def mk_variant_def)
  have "reprice_variants ?R (factor (Finite 10)) ([?a] @ [?c]) 0 (start [mixed])
      = (Inr 2, \<lparr>world = [mixed_after],
              calls = [ok_call (PricePatch 11 (js ''11.00'')), ok_call (PricePatch 13 (js ''11.00''))],
              visited = []\<rparr>)"
    unfolding reprice_variants_via rp do_writes_ok[OF own] start_simps w by (simp add: start_def)
  then show ?thesis
    unfolding skip .
qed

lemma reprice_ten:
  assumes "world s = [priced 1 ''10'']"
  shows "reprice_product (store_remote no_fault 250) (factor (Finite 0)) changed (priced 1 ''10'') s
     = (Inr (changed + 1),
        s\<lparr>world := [priced 1 ''10.00''], calls := calls s @ [ok_call (PricePatch 11 (js ''10.00''))]\<rparr>)"
proof -
  have ne: "js ''10.00'' \<noteq> js ''10''"
    by (simp add: js_def)
  have put: "shopify (store_remote no_fault 250) (VariantPath 11) (put_init (PricePatch 11 (js ''10.00''))) s
      = (Inr (Json None),
         s\<lparr>world := [priced 1 ''10.00''], calls := calls s @ [ok_call (PricePatch 11 (js ''10.00''))]\<rparr>)"
    by (simp add: shopify_def store_remote_def no_fault_def put_init_def ok_call_def ok_reply_def
        res_ok_def assms priced_def mk_product_def mk_variant_def variants_of_def)
  show ?thesis
    by (simp add: reprice_product_def priced_def mk_product_def mk_variant_def parse_ten factor_zero
        round_ten fixed_ten isFinite_def ne Let_def put[unfolded priced_def mk_product_def mk_variant_def])
qed

text \<open>
  Claim C3 as stated fails on the price string \<open>10\<close>: it parses as the finite number 10,
  \<open>(10 * 1).toFixed(2)\<close> is \<open>10.00\<close>, which differs from \<open>10\<close> as a string, and the
  0% run rewrites the variant's price.
\<close>

theorem zero_percent_rewrites_ten_counterexample:
  "isFinite (parseFloat (price (mk_variant 11 ''10'' (Some 3) (JStr (js ''shopify'')))))
   \<and> simpleReprice (store_remote no_fault 250) (Finite 0) (start [priced 1 ''10''])
     = Some (Inr (Changed 1),
         \<lparr>world = [priced 1 ''10.00''],
          calls = [page_call 100 0 (Some (js ''id,title,variants'')) [priced 1 ''10''],
                   ok_call (PricePatch 11 (js ''10.00'')),
                   page_call 100 1 (Some (js ''id,title,variants'')) []],
          visited = [1]\<rparr>)"
proof -
  let ?R = "store_remote no_fault 250"
  let ?B = "reprice_product ?R (factor (Finite 0))"
  let ?f = "Some (js ''id,title,variants'')"
  let ?s1 = "\<lparr>world = [priced 1 ''10''], calls = [page_call 100 0 ?f [priced 1 ''10'']], visited = [1]\<rparr>"
  let ?s2 = "\<lparr>world = [priced 1 ''10.00''],
      calls = [page_call 100 0 ?f [priced 1 ''10''], ok_call (PricePatch 11 (js ''10.00''))],
      visited = [1]\<rparr>"
  have ids: "pid (priced i pr) = i" for i pr
    by (simp add: priced_def mk_product_def)
  have body: "?B 0 (priced 1 ''10'') ?s1 = (Inr 1, ?s2)"
    using reprice_ten[of ?s1 0] by simp
  have first: "paginate ?R (\<lambda>k. ProductsPage 100 k ?f) ?B 0 0 (start [priced 1 ''10''])
      = paginate ?R (\<lambda>k. ProductsPage 100 k ?f) ?B 1 1 ?s2"
    by (subst paginate_store_step[of no_fault 100 0 ?f, OF no_fault_page])
      (simp add: above_def ids start_def body del: One_nat_def)
  have second: "paginate ?R (\<lambda>k. ProductsPage 100 k ?f) ?B 1 1 ?s2
      = Some (Inr 1, ?s2\<lparr>calls := calls ?s2 @ [page_call 100 1 ?f []]\<rparr>)"
    by (subst paginate_store_step[of no_fault 100 1 ?f, OF no_fault_page]) (simp add: above_def ids del: One_nat_def)
  have "isFinite (parseFloat (price (mk_variant 11 ''10'' (Some 3) (JStr (js ''shopify'')))))"
    by (simp add: mk_variant_def parse_ten isFinite_def)
  then show ?thesis
    unfolding simpleReprice_def first second by simp
qed

text \<open>
  Claim C3, amended: at \<open>percent = 0\<close> the factor is exactly 1 and the product of a parsed
  price with it is the parsed price; so when every price string of the catalog parses as a
  finite number and is already, character for character, the two-decimal rendering
  \<open>toFixed(2)\<close> of that number (\<open>two_decimal\<close>: \<open>10.00\<close> is, \<open>10\<close> is not), the run over a
  well-behaved store returns \<open>changed = 0\<close>, issues no write and leaves the catalog as it
  is.
\<close>

theorem zero_percent_writes_nothing:
  assumes "ascending cat" "0 < cap"
    and "\<forall>p \<in> set cat. \<forall>v \<in> set (variants_of p). two_decimal (price v)"
  shows "\<exists>s'. simpleReprice (store_remote no_fault cap) (Finite 0) (start cat) = Some (Inr (Changed 0), s')
          \<and> write_calls (calls s') = [] \<and> world s' = cat"
proof -
  let ?wr = "\<lambda>p. reprice_patches (factor (Finite 0)) (variants_of p)"
  let ?acc = "\<lambda>changed p. changed + length (reprice_patches (factor (Finite 0)) (variants_of p))"
  have none: "?wr p = []" if "p \<in> set cat" for p
    using assms(3) that by (intro two_decimal_no_patch) blast
  have sub: "set (above 0 cat) \<subseteq> set cat"
    by (auto simp: above_def)
  have P: "0 < min 100 cap"
    using assms(2) by simp
  have asc: "ascending (world (start cat))"
    using assms(1) by simp
  have ok: "writes_ok no_fault ?wr (world (start cat)) (above 0 (world (start cat)))"
    using none sub by (auto simp: writes_ok_def)
  have cc: "concat (map ?wr (above 0 cat)) = []"
    using none sub by auto
  have "foldl ?acc c ps = c" if "set ps \<subseteq> set cat" for c ps
    using that by (induction ps arbitrary: c) (simp_all add: none)
  then have acc: "foldl ?acc 0 (above 0 cat) = 0"
    using sub by blast
  from paginate_store_ok[of 100 cap no_fault "Some (js ''id,title,variants'')" "start cat" ?wr 0 ?acc 0,
      OF P no_fault_page asc ok]
  obtain s' where s':
    "paginate (store_remote no_fault cap) (\<lambda>k. ProductsPage 100 k (Some (js ''id,title,variants'')))
        (reprice_product (store_remote no_fault cap) (factor (Finite 0))) 0 0 (start cat)
       = Some (Inr 0, s')"
    "world s' = cat" "write_calls (calls s') = []"
    unfolding reprice_product_via by (auto simp: cc acc)
  have "simpleReprice (store_remote no_fault cap) (Finite 0) (start cat) = Some (Inr (Changed 0), s')"
    unfolding simpleReprice_def s'(1) by simp
  with s'(2,3) show ?thesis
    by blast
qed

theorem zero_percent_writes_nothing_witness:
  "\<exists>s'. simpleReprice (store_remote no_fault 250) (Finite 0) (start [priced 1 ''10.00'']) = Some (Inr (Changed 0), s')
       \<and> write_calls (calls s') = [] \<and> world s' = [priced 1 ''10.00'']"
proof -
  have a: "ascending [priced 1 ''10.00'']"
    by (simp add: ascending_def)
  have c: "0 < (250::nat)"
    by simp
  have "two_decimal (js ''10.00'')"
    by (simp add: two_decimal_def parse_ten_00 fixed_ten)
  then have t: "\<forall>p \<in> set [priced 1 ''10.00'']. \<forall>v \<in> set (variants_of p). two_decimal (price v)"
    by (simp add: priced_def mk_product_def mk_variant_def variants_of_def)
  show ?thesis
    by (rule zero_percent_writes_nothing[OF a c t])
qed

end
